theory Spec2Isabelle
  imports Main
begin

section \<open>Python runtime: exceptions, strings, integer parsing\<close>

text \<open>
  The parser signals failure by raising. The three exception classes that the code of
  \<^verbatim>\<open>isoparser.py\<close> and the library calls it makes can raise are kept apart, since
  \<^verbatim>\<open>except ValueError\<close> in \<^verbatim>\<open>_parse_isodate\<close> catches only the first.
\<close>

datatype py_error = ValueError | IndexError | OverflowError

definition ebind :: "py_error + 'a \<Rightarrow> ('a \<Rightarrow> py_error + 'b) \<Rightarrow> py_error + 'b" where
  "ebind r f = (case r of Inl e \<Rightarrow> Inl e | Inr v \<Rightarrow> f v)"

text \<open>\<^verbatim>\<open>s[i]\<close> for a non-negative index: IndexError beyond the end.\<close>

definition py_index :: "string \<Rightarrow> nat \<Rightarrow> py_error + char" where
  "py_index s i = (if i < length s then Inr (s ! i) else Inl IndexError)"

text \<open>\<^verbatim>\<open>s[a:b]\<close> for \<open>0 \<le> a \<le> b\<close>: never raises, clips at the end of the string.\<close>

definition py_slice :: "string \<Rightarrow> nat \<Rightarrow> nat \<Rightarrow> string" where
  "py_slice s a b = take (b - a) (drop a s)"

text \<open>
  \<^verbatim>\<open>int(s)\<close> for a string (Python 3, base 10), on characters with code points below 256:
  white space is stripped on both sides, one sign is allowed, and the digits may be
  grouped by single underscores. Anything else raises ValueError. The white space that
  \<^verbatim>\<open>int\<close> strips is tab, line feed, vertical tab, form feed, carriage return and space
  (9 to 13 and 32) and, of the code points from 128, next line (133) and no-break space
  (160); the separators 28 to 31 are not stripped.
\<close>

definition is_space :: "char \<Rightarrow> bool" where
  "is_space c = (let n = (of_char c :: nat) in
     (9 \<le> n \<and> n \<le> 13) \<or> n = 32 \<or> n = 133 \<or> n = 160)"

definition is_digit :: "char \<Rightarrow> bool" where
  "is_digit c = (let n = (of_char c :: nat) in 48 \<le> n \<and> n \<le> 57)"

definition digit_val :: "char \<Rightarrow> int" where
  "digit_val c = int (of_char c) - 48"

fun int_digits :: "int \<Rightarrow> string \<Rightarrow> int option" where
  "int_digits acc [] = Some acc"
| "int_digits acc (c # cs) =
     (if is_digit c then int_digits (10 * acc + digit_val c) cs
      else if c = CHR ''_'' then
        (case cs of
           [] \<Rightarrow> None
         | d # ds \<Rightarrow> if is_digit d then int_digits (10 * acc + digit_val d) ds else None)
      else None)"

definition int_unsigned :: "string \<Rightarrow> int option" where
  "int_unsigned s =
     (case s of
        [] \<Rightarrow> None
      | c # cs \<Rightarrow> if is_digit c then int_digits (digit_val c) cs else None)"

definition strip :: "string \<Rightarrow> string" where
  "strip s = rev (dropWhile is_space (rev (dropWhile is_space s)))"

definition py_int :: "string \<Rightarrow> py_error + int" where
  "py_int s =
     (case strip s of
        [] \<Rightarrow> Inl ValueError
      | c # cs \<Rightarrow>
          (if c = CHR ''-'' then
             (case int_unsigned cs of None \<Rightarrow> Inl ValueError | Some v \<Rightarrow> Inr (- v))
           else if c = CHR ''+'' then
             (case int_unsigned cs of None \<Rightarrow> Inl ValueError | Some v \<Rightarrow> Inr v)
           else
             (case int_unsigned (c # cs) of None \<Rightarrow> Inl ValueError | Some v \<Rightarrow> Inr v)))"

section \<open>Python runtime: the proleptic Gregorian calendar of \<^verbatim>\<open>datetime\<close>\<close>

text \<open>
  \<^verbatim>\<open>datetime.date\<close>, its ordinal arithmetic and \<^verbatim>\<open>isocalendar\<close>, after the reference
  implementation of the standard library (\<^verbatim>\<open>_is_leap\<close>, \<^verbatim>\<open>_days_before_year\<close>,
  \<^verbatim>\<open>_ymd2ord\<close>, \<^verbatim>\<open>_ord2ymd\<close>, \<^verbatim>\<open>_isoweek1monday\<close>). Python's \<^verbatim>\<open>//\<close> and \<^verbatim>\<open>%\<close>
  round towards minus infinity, as \<open>div\<close> and \<open>mod\<close> on \<open>int\<close> do.
\<close>

definition MINYEAR :: int where "MINYEAR = 1"
definition MAXYEAR :: int where "MAXYEAR = 9999"
definition MAXORDINAL :: int where "MAXORDINAL = 3652059"

definition is_leap :: "int \<Rightarrow> bool" where
  "is_leap year = (year mod 4 = 0 \<and> (year mod 100 \<noteq> 0 \<or> year mod 400 = 0))"

definition DAYS_IN_MONTH :: "int list" where
  "DAYS_IN_MONTH = [-1, 31, 28, 31, 30, 31, 30, 31, 31, 30, 31, 30, 31]"

definition DAYS_BEFORE_MONTH :: "int list" where
  "DAYS_BEFORE_MONTH = [-1, 0, 31, 59, 90, 120, 151, 181, 212, 243, 273, 304, 334]"

definition days_before_year :: "int \<Rightarrow> int" where
  "days_before_year year = (let y = year - 1 in y * 365 + y div 4 - y div 100 + y div 400)"

definition days_in_month :: "int \<Rightarrow> int \<Rightarrow> int" where
  "days_in_month year month =
     (if month = 2 \<and> is_leap year then 29 else DAYS_IN_MONTH ! nat month)"

definition days_before_month :: "int \<Rightarrow> int \<Rightarrow> int" where
  "days_before_month year month =
     DAYS_BEFORE_MONTH ! nat month + (if month > 2 \<and> is_leap year then 1 else 0)"

definition ymd2ord :: "int \<Rightarrow> int \<Rightarrow> int \<Rightarrow> int" where
  "ymd2ord year month day = days_before_year year + days_before_month year month + day"

definition DI400Y :: int where "DI400Y = days_before_year 401"
definition DI100Y :: int where "DI100Y = days_before_year 101"
definition DI4Y :: int where "DI4Y = days_before_year 5"

text \<open>
  \<^verbatim>\<open>_ord2ymd\<close>; \<^verbatim>\<open>(n + 50) >> 5\<close> is \<open>(n + 50) div 32\<close>. The two \<^verbatim>\<open>assert\<close> statements
  of the reference implementation are not part of the model.
\<close>

definition ord2ymd :: "int \<Rightarrow> int \<times> int \<times> int" where
  "ord2ymd n0 =
     (let n = n0 - 1;
          n400 = n div DI400Y; n = n mod DI400Y;
          year = n400 * 400 + 1;
          n100 = n div DI100Y; n = n mod DI100Y;
          n4 = n div DI4Y; n = n mod DI4Y;
          n1 = n div 365; n = n mod 365;
          year = year + (n100 * 100 + n4 * 4 + n1)
      in if n1 = 4 \<or> n100 = 4 then (year - 1, 12, 31)
         else
           let leapyear = (n1 = 3 \<and> (n4 \<noteq> 24 \<or> n100 = 3));
               month = (n + 50) div 32;
               preceding = DAYS_BEFORE_MONTH ! nat month
                           + (if month > 2 \<and> leapyear then 1 else 0)
           in if preceding > n then
                let month = month - 1;
                    preceding = preceding - (DAYS_IN_MONTH ! nat month
                                + (if month = 2 \<and> leapyear then 1 else 0))
                in (year, month, n - preceding + 1)
              else (year, month, n - preceding + 1))"

record date =
  year :: int
  month :: int
  day :: int

text \<open>\<^verbatim>\<open>date(year, month, day)\<close>: the constructor checks the fields.\<close>

definition check_date_fields :: "int \<Rightarrow> int \<Rightarrow> int \<Rightarrow> bool" where
  "check_date_fields y m d =
     (MINYEAR \<le> y \<and> y \<le> MAXYEAR \<and> 1 \<le> m \<and> m \<le> 12 \<and> 1 \<le> d \<and> d \<le> days_in_month y m)"

definition date_new :: "int \<times> int \<times> int \<Rightarrow> py_error + date" where
  "date_new c = (case c of (y, m, d) \<Rightarrow>
     if check_date_fields y m d then Inr \<lparr>year = y, month = m, day = d\<rparr> else Inl ValueError)"

definition toordinal :: "date \<Rightarrow> int" where
  "toordinal dt = ymd2ord (year dt) (month dt) (day dt)"

definition fromordinal :: "int \<Rightarrow> date" where
  "fromordinal n = (case ord2ymd n of (y, m, d) \<Rightarrow> \<lparr>year = y, month = m, day = d\<rparr>)"

text \<open>\<^verbatim>\<open>dt + timedelta(days=k)\<close> and \<^verbatim>\<open>dt - timedelta(days=k)\<close>.\<close>

definition date_add_days :: "date \<Rightarrow> int \<Rightarrow> py_error + date" where
  "date_add_days dt k =
     (let o' = toordinal dt + k
      in if 0 < o' \<and> o' \<le> MAXORDINAL then Inr (fromordinal o') else Inl OverflowError)"

definition date_sub_days :: "date \<Rightarrow> int \<Rightarrow> py_error + date" where
  "date_sub_days dt k = date_add_days dt (- k)"

definition isoweek1monday :: "int \<Rightarrow> int" where
  "isoweek1monday y =
     (let firstday = ymd2ord y 1 1;
          firstweekday = (firstday + 6) mod 7;
          week1monday = firstday - firstweekday
      in if firstweekday > 3 then week1monday + 7 else week1monday)"

definition isocalendar :: "date \<Rightarrow> int \<times> int \<times> int" where
  "isocalendar dt =
     (let y = year dt;
          week1monday = isoweek1monday y;
          today = ymd2ord (year dt) (month dt) (day dt);
          week = (today - week1monday) div 7;
          wday = (today - week1monday) mod 7
      in if week < 0 then
           let y = y - 1;
               week1monday = isoweek1monday y;
               week = (today - week1monday) div 7;
               wday = (today - week1monday) mod 7
           in (y, week + 1, wday + 1)
         else if week \<ge> 52 \<and> today \<ge> isoweek1monday (y + 1) then (y + 1, 1, wday + 1)
         else (y, week + 1, wday + 1))"

text \<open>
  Modelled from the spec: the time zone values of \<^verbatim>\<open>dateutil.tz\<close>, which is not among
  the sources: the UTC marker \<^verbatim>\<open>tz.tzutc()\<close> and a fixed offset
  \<^verbatim>\<open>tz.tzoffset(None, delta)\<close>, kept as its signed number of minutes.
\<close>

datatype tzinfo = tzutc | tzoffset int

text \<open>\<^verbatim>\<open>time(...)\<close> and \<^verbatim>\<open>datetime(...)\<close> check their fields as \<^verbatim>\<open>date(...)\<close> does.\<close>

record time =
  hour :: int
  minute :: int
  second :: int
  microsecond :: int
  tz :: "tzinfo option"

record datetime = date +
  dhour :: int
  dminute :: int
  dsecond :: int
  dmicrosecond :: int
  dtz :: "tzinfo option"

definition check_time_fields :: "int \<Rightarrow> int \<Rightarrow> int \<Rightarrow> int \<Rightarrow> bool" where
  "check_time_fields h mi s us =
     (0 \<le> h \<and> h \<le> 23 \<and> 0 \<le> mi \<and> mi \<le> 59 \<and> 0 \<le> s \<and> s \<le> 59 \<and> 0 \<le> us \<and> us \<le> 999999)"

definition time_new :: "time \<Rightarrow> py_error + time" where
  "time_new c =
     (if check_time_fields (hour c) (minute c) (second c) (microsecond c) then Inr c
      else Inl ValueError)"

definition datetime_new :: "int \<times> int \<times> int \<Rightarrow> time \<Rightarrow> py_error + datetime" where
  "datetime_new c t = (case c of (y, m, d) \<Rightarrow>
     if check_date_fields y m d
        \<and> check_time_fields (hour t) (minute t) (second t) (microsecond t)
     then Inr \<lparr>year = y, month = m, day = d, dhour = hour t, dminute = minute t,
               dsecond = second t, dmicrosecond = microsecond t, dtz = tz t\<rparr>
     else Inl ValueError)"

section \<open>The parser of \<^verbatim>\<open>isoparser.py\<close>\<close>

record isoparser =
  sep :: char
  default_year :: int

text \<open>
  \<^verbatim>\<open>Isoparser.__init__\<close>; \<open>now_year\<close> stands for \<^verbatim>\<open>datetime.now().year\<close>, read once
  when no default year is given.
\<close>

definition isoparser_init :: "string \<Rightarrow> int option \<Rightarrow> int \<Rightarrow> py_error + isoparser" where
  "isoparser_init sp dy now_year =
     (if length sp \<noteq> 1 then Inl ValueError
      else case dy of
             Some y \<Rightarrow> if \<not> (1 \<le> y \<and> y \<le> 9999) then Inl ValueError
                       else Inr \<lparr>sep = sp ! 0, default_year = y\<rparr>
           | None \<Rightarrow> Inr \<lparr>sep = sp ! 0, default_year = now_year\<rparr>)"

subsection \<open>Time zone offsets\<close>

definition parse_tzstr :: "string \<Rightarrow> bool \<Rightarrow> py_error + tzinfo" where
  "parse_tzstr tzstr zero_as_utc =
     (if tzstr = ''Z'' then Inr tzutc
      else if length tzstr \<notin> {3, 5, 6} then Inl ValueError
      else
        ebind (if tzstr ! 0 = CHR ''-'' then Inr (- 1)
               else if tzstr ! 0 = CHR ''+'' then Inr (1 :: int)
               else Inl ValueError) (\<lambda>mult.
        ebind (py_int (py_slice tzstr 1 3)) (\<lambda>hours.
        ebind (if length tzstr = 3 then Inr 0
               else py_int (drop (if tzstr ! 3 = CHR '':'' then 4 else 3) tzstr)) (\<lambda>minutes.
        if zero_as_utc \<and> hours = 0 \<and> minutes = 0 then Inr tzutc
        else if minutes > 59 then Inl ValueError
        else if hours > 23 then Inl ValueError
        else Inr (tzoffset (mult * (hours * 60 + minutes)))))))"

subsection \<open>Dates\<close>

definition priv_parse_isodate_common :: "string \<Rightarrow> py_error + ((int \<times> int \<times> int) \<times> nat)" where
  "priv_parse_isodate_common dt_str =
     (let len_str = length dt_str in
      if len_str < 4 then Inl ValueError
      else
        ebind (py_int (py_slice dt_str 0 4)) (\<lambda>y.
        let pos = 4 in
        if pos \<ge> len_str then Inr ((y, 1, 1), pos)
        else
          let has_sep = (dt_str ! pos = CHR ''-'');
              pos = (if has_sep then pos + 1 else pos)
          in if int len_str - int pos < 2 then Inl ValueError
             else
               ebind (py_int (py_slice dt_str pos (pos + 2))) (\<lambda>m.
               let pos = pos + 2 in
               if pos \<ge> len_str then Inr ((y, m, 1), pos)
               else if has_sep \<and> dt_str ! pos \<noteq> CHR ''-'' then Inl ValueError
               else
                 let pos = (if has_sep then pos + 1 else pos)
                 in if int len_str - int pos < 2 then Inl ValueError
                    else
                      ebind (py_int (py_slice dt_str pos (pos + 2))) (\<lambda>d.
                      Inr ((y, m, d), pos + 2)))))"

definition priv_calculate_weekdate :: "int \<Rightarrow> int \<Rightarrow> int \<Rightarrow> py_error + date" where
  "priv_calculate_weekdate y week wday =
     (if \<not> (0 < week \<and> week < 54) then Inl ValueError
      else if \<not> (0 < wday \<and> wday < 8) then Inl ValueError
      else
        ebind (date_new (y, 1, 4)) (\<lambda>jan_4.
        ebind (date_sub_days jan_4 (snd (snd (isocalendar jan_4)) - 1)) (\<lambda>week_1.
        let week_offset = (week - 1) * 7 + (wday - 1)
        in date_add_days week_1 week_offset)))"

definition priv_parse_isodate_uncommon ::
  "isoparser \<Rightarrow> string \<Rightarrow> py_error + ((int \<times> int \<times> int) \<times> nat)" where
  "priv_parse_isodate_uncommon self dt_str =
     (if py_slice dt_str 0 2 = ''--'' then
        ebind (py_int (py_slice dt_str 2 4)) (\<lambda>m.
        ebind (py_index dt_str 4) (\<lambda>c4.
        let pos = 4 + (if c4 = CHR ''-'' then 1 else 0) in
        ebind (py_int (py_slice dt_str pos (pos + 2))) (\<lambda>d.
        let y = default_year self;
            y = (if m = 2 \<and> d = 29 then
                   let y = y - y mod 4
                   in if y mod 400 \<noteq> 0 \<and> \<not> (y mod 100 \<noteq> 0) then y - 4 else y
                 else y)
        in Inr ((y, m, d), pos + 2))))
      else
        ebind (py_int (py_slice dt_str 0 4)) (\<lambda>y.
        ebind (py_index dt_str 4) (\<lambda>c4.
        let pos = 4 + (if c4 = CHR ''-'' then 1 else 0) in
        ebind (py_index dt_str pos) (\<lambda>cp.
        if cp = CHR ''W'' then
          let pos = pos + 1 in
          ebind (py_int (py_slice dt_str pos (pos + 2))) (\<lambda>weekno.
          let pos = pos + 2 in
          ebind (if length dt_str > pos then
                   if dt_str ! pos = CHR ''-'' then
                     if c4 \<noteq> CHR ''-'' then Inl ValueError
                     else
                       ebind (py_index dt_str (pos + 1)) (\<lambda>cd.
                       ebind (py_int [cd]) (\<lambda>dayno. Inr (dayno, pos + 2)))
                   else
                     ebind (py_int [dt_str ! pos]) (\<lambda>dayno. Inr (dayno, pos + 1))
                 else Inr (1, pos)) (\<lambda>(dayno, pos).
          ebind (priv_calculate_weekdate y weekno dayno) (\<lambda>base_date.
          Inr ((year base_date, month base_date, day base_date), pos))))
        else
          ebind (py_int (py_slice dt_str pos (pos + 3))) (\<lambda>ordinal_day.
          let pos = pos + 3 in
          if ordinal_day < 1 \<or> ordinal_day > 365 + (if is_leap y then 1 else 0)
          then Inl ValueError
          else
            ebind (date_new (y, 1, 1)) (\<lambda>jan_1.
            ebind (date_add_days jan_1 (ordinal_day - 1)) (\<lambda>base_date.
            Inr ((year base_date, month base_date, day base_date), pos))))))))"

text \<open>\<^verbatim>\<open>try: common except ValueError: uncommon\<close>: only a ValueError is caught.\<close>

definition priv_parse_isodate ::
  "isoparser \<Rightarrow> string \<Rightarrow> py_error + ((int \<times> int \<times> int) \<times> nat)" where
  "priv_parse_isodate self dt_str =
     (case priv_parse_isodate_common dt_str of
        Inl ValueError \<Rightarrow> priv_parse_isodate_uncommon self dt_str
      | r \<Rightarrow> r)"

definition parse_isodate :: "isoparser \<Rightarrow> string \<Rightarrow> py_error + date" where
  "parse_isodate self datestr =
     ebind (priv_parse_isodate self datestr) (\<lambda>(components, pos). date_new components)"

subsection \<open>Times\<close>

text \<open>
  The list \<^verbatim>\<open>components = [0, 0, 0, 0, None]\<close> is a \<open>time\<close> record;
  \<^verbatim>\<open>components[comp] = v\<close> is only executed for \<open>cmp\<close> (the source's \<^verbatim>\<open>comp\<close>) from 0 to 3.
\<close>

definition set_component :: "time \<Rightarrow> int \<Rightarrow> int \<Rightarrow> time" where
  "set_component components cmp v =
     (if cmp = 0 then components\<lparr>hour := v\<rparr>
      else if cmp = 1 then components\<lparr>minute := v\<rparr>
      else if cmp = 2 then components\<lparr>second := v\<rparr>
      else components\<lparr>microsecond := v\<rparr>)"

text \<open>
  \<^verbatim>\<open>_MICROSECOND_END_REGEX.split(s, 1)[0]\<close> with the pattern \<^verbatim>\<open>[-+Z]+\<close>: the part of
  \<open>s\<close> before the first of these three characters, all of \<open>s\<close> if there is none.
\<close>

definition is_tz_char :: "char \<Rightarrow> bool" where
  "is_tz_char c = (c = CHR ''-'' \<or> c = CHR ''+'' \<or> c = CHR ''Z'')"

definition microsecond_end_split :: "string \<Rightarrow> string" where
  "microsecond_end_split s = takeWhile (\<lambda>c. \<not> is_tz_char c) s"

text \<open>
  The \<^verbatim>\<open>while pos < len_str and comp < 5\<close> loop of \<^verbatim>\<open>_parse_isotime\<close>, one call per
  iteration; the result is the state after the loop. Every \<^verbatim>\<open>timestr[pos]\<close> in the body
  is read under the loop's guard \<open>pos < len_str\<close>.
\<close>

function parse_isotime_loop ::
  "string \<Rightarrow> bool \<Rightarrow> nat \<Rightarrow> int \<Rightarrow> time \<Rightarrow> py_error + (time \<times> nat)" where
  "parse_isotime_loop timestr has_sep pos cmp components =
     (if pos < length timestr \<and> cmp < 5 then
        let cmp = cmp + 1 in
        if is_tz_char (timestr ! pos) then
          (case parse_tzstr (drop pos timestr) True of
             Inl e \<Rightarrow> Inl e
           | Inr z \<Rightarrow> Inr (components\<lparr>tz := Some z\<rparr>, length timestr))
        else if cmp < 3 then
          (case py_int (py_slice timestr pos (pos + 2)) of
             Inl e \<Rightarrow> Inl e
           | Inr v \<Rightarrow>
               let components = set_component components cmp v;
                   pos = pos + 2;
                   pos = (if has_sep \<and> pos < length timestr \<and> timestr ! pos = CHR '':''
                          then pos + 1 else pos)
               in parse_isotime_loop timestr has_sep pos cmp components)
        else if cmp = 3 then
          (if timestr ! pos \<noteq> CHR ''.'' then
             parse_isotime_loop timestr has_sep pos cmp components
           else
             let pos = pos + 1;
                 us_str = microsecond_end_split (py_slice timestr pos (pos + 6))
             in case py_int us_str of
                  Inl e \<Rightarrow> Inl e
                | Inr v \<Rightarrow>
                    parse_isotime_loop timestr has_sep (pos + length us_str) cmp
                      (set_component components cmp (v * 10 ^ (6 - length us_str))))
        else parse_isotime_loop timestr has_sep pos cmp components
      else Inr (components, pos))"
  by pat_completeness auto
termination
  by (relation "measure (\<lambda>(timestr, has_sep, pos, cmp, components). nat (5 - cmp))") auto

definition priv_parse_isotime :: "string \<Rightarrow> py_error + time" where
  "priv_parse_isotime timestr =
     (let len_str = length timestr;
          components = \<lparr>hour = 0, minute = 0, second = 0, microsecond = 0, tz = None\<rparr>;
          has_sep = (len_str \<ge> 3 \<and> timestr ! 2 = CHR '':'')
      in ebind (parse_isotime_loop timestr has_sep 0 (- 1) components) (\<lambda>(components, pos).
         if pos < len_str then Inl ValueError
         else if hour components = 24 then
           if minute components \<noteq> 0 \<or> second components \<noteq> 0 \<or> microsecond components \<noteq> 0
           then Inl ValueError
           else Inr (components\<lparr>hour := 0\<rparr>)
         else Inr components))"

definition parse_isotime :: "string \<Rightarrow> py_error + time" where
  "parse_isotime timestr = ebind (priv_parse_isotime timestr) time_new"

subsection \<open>Combined date and time\<close>

text \<open>
  \<^verbatim>\<open>isoparse\<close> on a string (the \<^verbatim>\<open>read\<close> probe for streams is outside the model).
  \<^verbatim>\<open>datetime(*components)\<close> gets three arguments when there is no time portion, so the
  time fields take their defaults.
\<close>

definition isoparse :: "isoparser \<Rightarrow> string \<Rightarrow> bool \<Rightarrow> py_error + datetime" where
  "isoparse self dt_str common_only =
     ebind (if common_only then priv_parse_isodate_common dt_str
            else priv_parse_isodate self dt_str) (\<lambda>(components, pos).
     if length dt_str > pos then
       if dt_str ! pos = sep self then
         ebind (priv_parse_isotime (drop (pos + 1) dt_str)) (\<lambda>t. datetime_new components t)
       else Inl ValueError
     else datetime_new components
            \<lparr>hour = 0, minute = 0, second = 0, microsecond = 0, tz = None\<rparr>)"

section \<open>Auxiliary definitions\<close>

subsection \<open>Parts of the calendar functions, named for the proofs\<close>

text \<open>
  \<open>month_day\<close> is the last part of \<^verbatim>\<open>_ord2ymd\<close>: from the leap flag and the zero-based
  day of the year to month and day. \<open>dim_l\<close> and \<open>dbm_l\<close> are \<^verbatim>\<open>_days_in_month\<close> and
  \<^verbatim>\<open>_days_before_month\<close> with the leap flag in place of the year. \<open>md_ok\<close> and \<open>k_ok\<close>
  say that \<open>month_day\<close> and \<open>dbm_l\<close> invert each other at one month and day, and at one
  day of the year; they are checked by evaluation for every day of a common year and of a
  leap year.
\<close>

definition month_day :: "bool \<Rightarrow> int \<Rightarrow> int \<times> int" where
  "month_day leapyear n =
     (let month = (n + 50) div 32;
          preceding = DAYS_BEFORE_MONTH ! nat month
                      + (if month > 2 \<and> leapyear then 1 else 0)
      in if preceding > n then
           let month = month - 1;
               preceding = preceding - (DAYS_IN_MONTH ! nat month
                           + (if month = 2 \<and> leapyear then 1 else 0))
           in (month, n - preceding + 1)
         else (month, n - preceding + 1))"

definition dim_l :: "bool \<Rightarrow> int \<Rightarrow> int" where
  "dim_l leap m = (if m = 2 \<and> leap then 29 else DAYS_IN_MONTH ! nat m)"

definition dbm_l :: "bool \<Rightarrow> int \<Rightarrow> int" where
  "dbm_l leap m = DAYS_BEFORE_MONTH ! nat m + (if m > 2 \<and> leap then 1 else 0)"

definition md_ok :: "bool \<Rightarrow> int \<Rightarrow> int \<Rightarrow> bool" where
  "md_ok leap m d = (let k = dbm_l leap m + d - 1 in
       0 \<le> k \<and> k < 365 + (if leap then 1 else 0)
       \<and> (if k = 365 then m = 12 \<and> d = 31 else month_day leap k = (m, d)))"

definition k_ok :: "bool \<Rightarrow> int \<Rightarrow> bool" where
  "k_ok leap k = (case month_day leap k of (m, d) \<Rightarrow>
        1 \<le> m \<and> m \<le> 12 \<and> 1 \<le> d \<and> d \<le> dim_l leap m \<and> dbm_l leap m + d - 1 = k)"

subsection \<open>Notions of the specification\<close>

text \<open>
  The specification speaks of fixed-width, zero-padded decimal fields, of the value of a
  string of digits, and of ISO years with 52 or 53 weeks. \<open>zfill2\<close> and \<open>zfill4\<close> render a
  number in two and in four digits; \<open>digits_value 0 s\<close> is the number that the digit string
  \<open>s\<close> denotes; \<open>iso_weeks_in_year y\<close> is the ISO week number of December 28th of \<open>y\<close>,
  which always lies in the last ISO week of its year.
\<close>

definition digit_char :: "int \<Rightarrow> char" where
  "digit_char n = char_of (48 + nat n)"

definition zfill2 :: "int \<Rightarrow> string" where
  "zfill2 n = [digit_char (n div 10), digit_char (n mod 10)]"

definition zfill4 :: "int \<Rightarrow> string" where
  "zfill4 n = [digit_char (n div 1000), digit_char (n div 100 mod 10),
               digit_char (n div 10 mod 10), digit_char (n mod 10)]"

fun digits_value :: "int \<Rightarrow> string \<Rightarrow> int" where
  "digits_value acc [] = acc"
| "digits_value acc (c # cs) = digits_value (10 * acc + digit_val c) cs"

definition iso_weeks_in_year :: "int \<Rightarrow> int" where
  "iso_weeks_in_year y = fst (snd (isocalendar \<lparr>year = y, month = 12, day = 28\<rparr>))"

text \<open>
  The year-less form is specified by a rule on the default year: subtract the year modulo
  4, then 4 more if the candidate is divisible by 100 but not by 400.
\<close>

definition spec_leap_year_upto :: "int \<Rightarrow> int" where
  "spec_leap_year_upto dy =
     (let candidate = dy - dy mod 4
      in if candidate mod 100 = 0 \<and> candidate mod 400 \<noteq> 0 then candidate - 4 else candidate)"

text \<open>
  The result the specification gives for a signed offset token with the given sign, hours
  and minutes: UTC for a zero offset when \<open>zero_as_utc\<close> is set, otherwise a range check
  and the fixed offset in minutes.
\<close>

definition spec_tz_result :: "bool \<Rightarrow> int \<Rightarrow> int \<Rightarrow> int \<Rightarrow> py_error + tzinfo" where
  "spec_tz_result zero_as_utc sign hours minutes =
     (if zero_as_utc \<and> hours = 0 \<and> minutes = 0 then Inr tzutc
      else if hours \<le> 23 \<and> minutes \<le> 59 then Inr (tzoffset (sign * (hours * 60 + minutes)))
      else Inl ValueError)"

section \<open>The calendar: ordinals and dates are in bijection\<close>

subsection \<open>Days before a year\<close>

lemma div_pred:
  fixes y d :: int
  assumes "0 < d"
  shows "y div d - (y - 1) div d = (if y mod d = 0 then 1 else 0)"
proof (cases "y mod d = 0")
  case True
  then have "y = d * (y div d)" by (metis mult_div_mod_eq add.right_neutral)
  then have "y - 1 = d * (y div d - 1) + (d - 1)" by (simp add: algebra_simps)
  then have "(y - 1) div d = y div d - 1"
    using assms by (intro int_div_pos_eq[where r = "d - 1"]) auto
  with True show ?thesis by simp
next
  case False
  have r: "0 \<le> y mod d - 1" "y mod d - 1 < d"
    using False assms pos_mod_sign[of d y] pos_mod_bound[of d y] by linarith+
  have "y - 1 = d * (y div d) + (y mod d - 1)"
    by (simp add: algebra_simps)
  then have "(y - 1) div d = y div d"
    using r by (intro int_div_pos_eq[where r = "y mod d - 1"]) auto
  with False show ?thesis by simp
qed

lemma mod_400_100: "(y::int) mod 400 = 0 \<Longrightarrow> y mod 100 = 0"
  using mod_mod_cancel[of 100 400 y] by simp

lemma mod_100_4: "(y::int) mod 100 = 0 \<Longrightarrow> y mod 4 = 0"
  using mod_mod_cancel[of 4 100 y] by simp

lemma dby_step_abs:
  fixes a a' b b' c c' y :: int
  assumes "a - a' = (if p4 then 1 else 0)" "b - b' = (if p100 then 1 else 0)"
    "c - c' = (if p400 then 1 else 0)" "p400 \<Longrightarrow> p100" "p100 \<Longrightarrow> p4"
  shows "y * 365 + a - b + c
         = (y - 1) * 365 + a' - b' + c' + 365 + (if p4 \<and> (\<not> p100 \<or> p400) then 1 else 0)"
  using assms by (auto split: if_splits)

lemma dby_Suc: "days_before_year (y + 1) = days_before_year y + 365 + (if is_leap y then 1 else 0)"
proof -
  have a: "y div 4 - (y - 1) div 4 = (if y mod 4 = 0 then 1 else 0)" by (rule div_pred) simp
  have b: "y div 100 - (y - 1) div 100 = (if y mod 100 = 0 then 1 else 0)" by (rule div_pred) simp
  have c: "y div 400 - (y - 1) div 400 = (if y mod 400 = 0 then 1 else 0)" by (rule div_pred) simp
  have l: "days_before_year (y + 1) = y * 365 + y div 4 - y div 100 + y div 400"
    by (simp add: days_before_year_def)
  have r: "days_before_year y = (y - 1) * 365 + (y - 1) div 4 - (y - 1) div 100 + (y - 1) div 400"
    by (simp add: days_before_year_def Let_def)
  show ?thesis
    unfolding l r is_leap_def
    by (rule dby_step_abs[OF a b c mod_400_100 mod_100_4])
qed

subsection \<open>\<^verbatim>\<open>_ord2ymd\<close> inverts \<^verbatim>\<open>_ymd2ord\<close>\<close>

text \<open>
  The year is found by writing \<open>y - 1 = 400 a + 100 b + 4 c + e\<close> and following the four
  divisions of \<^verbatim>\<open>_ord2ymd\<close>; month and day are found by evaluation over the days of a
  year.
\<close>

lemma DI_values: "DI400Y = 146097" "DI100Y = 36524" "DI4Y = 1461"
  by (simp_all add: DI400Y_def DI100Y_def DI4Y_def days_before_year_def)

lemma ord2ymd_chain:
  assumes "n0 - 1 = DI400Y * q400 + r400" "0 \<le> r400" "r400 < DI400Y"
    and "r400 = DI100Y * q100 + r100" "0 \<le> r100" "r100 < DI100Y"
    and "r100 = DI4Y * q4 + r4" "0 \<le> r4" "r4 < DI4Y"
    and "r4 = 365 * q1 + r1" "0 \<le> r1" "r1 < 365"
  shows "ord2ymd n0 =
    (if q1 = 4 \<or> q100 = 4 then (400 * q400 + 100 * q100 + 4 * q4 + q1, 12, 31)
     else case month_day (q1 = 3 \<and> (q4 \<noteq> 24 \<or> q100 = 3)) r1 of
            (m, d) \<Rightarrow> (400 * q400 + 1 + 100 * q100 + 4 * q4 + q1, m, d))"
proof -
  have d1: "(n0 - 1) div DI400Y = q400" and m1: "(n0 - 1) mod DI400Y = r400"
    using assms(1-3) by (auto intro: int_div_pos_eq int_mod_pos_eq)
  have d2: "r400 div DI100Y = q100" and m2: "r400 mod DI100Y = r100"
    using assms(4-6) by (auto intro: int_div_pos_eq int_mod_pos_eq)
  have d3: "r100 div DI4Y = q4" and m3: "r100 mod DI4Y = r4"
    using assms(7-9) by (auto intro: int_div_pos_eq int_mod_pos_eq)
  have d4: "r4 div 365 = q1" and m4: "r4 mod 365 = r1"
    using assms(10-12) by (auto intro: int_div_pos_eq int_mod_pos_eq)
  show ?thesis
    unfolding ord2ymd_def Let_def d1 m1 d2 m2 d3 m3 d4 m4 month_day_def
    by (simp add: algebra_simps)
qed

lemma year_decomp:
  fixes y :: int
  obtains a b c e where "y - 1 = 400 * a + 100 * b + 4 * c + e"
    "0 \<le> b" "b \<le> 3" "0 \<le> c" "c \<le> 24" "0 \<le> e" "e \<le> 3"
proof -
  define Y where "Y = y - 1"
  define R where "R = Y mod 400"
  define R' where "R' = R mod 100"
  have 1: "Y = 400 * (Y div 400) + R" by (simp add: R_def)
  have 2: "R = 100 * (R div 100) + R'" by (simp add: R'_def)
  have 3: "R' = 4 * (R' div 4) + R' mod 4" by simp
  have bR: "0 \<le> R" "R < 400" by (simp_all add: R_def)
  have bR': "0 \<le> R'" "R' < 100" by (simp_all add: R'_def)
  have b: "0 \<le> R div 100" "R div 100 \<le> 3" using bR by simp_all
  have c: "0 \<le> R' div 4" "R' div 4 \<le> 24" using bR' by simp_all
  have e: "0 \<le> R' mod 4" "R' mod 4 \<le> 3" by simp_all
  have "y - 1 = 400 * (Y div 400) + 100 * (R div 100) + 4 * (R' div 4) + R' mod 4"
    using 1 2 3 unfolding Y_def[symmetric] by linarith
  then show thesis using b c e that by blast
qed

lemma dby_decomp:
  assumes "y - 1 = 400 * a + 100 * b + 4 * c + e"
    "0 \<le> b" "b \<le> 3" "0 \<le> c" "c \<le> 24" "0 \<le> e" "e \<le> (3::int)"
  shows "days_before_year y = 146097 * a + 36524 * b + 1461 * c + 365 * e"
proof -
  have d4: "(y - 1) div 4 = 100 * a + 25 * b + c"
    using assms by (intro int_div_pos_eq[where r = e]) auto
  have d100: "(y - 1) div 100 = 4 * a + b"
    using assms by (intro int_div_pos_eq[where r = "4 * c + e"]) auto
  have d400: "(y - 1) div 400 = a"
    using assms by (intro int_div_pos_eq[where r = "100 * b + 4 * c + e"]) auto
  show ?thesis
    unfolding days_before_year_def Let_def d4 d100 d400 using assms(1) by simp
qed

lemma is_leap_decomp:
  assumes "y - 1 = 400 * a + 100 * b + 4 * c + e"
    "0 \<le> b" "b \<le> 3" "0 \<le> c" "c \<le> 24" "0 \<le> e" "e \<le> (3::int)"
  shows "is_leap y = (e = 3 \<and> (c \<noteq> 24 \<or> b = 3))"
proof -
  have m4: "y mod 4 = (if e = 3 then 0 else e + 1)"
  proof (cases "e = 3")
    case True
    then show ?thesis using assms
      by (auto intro!: int_mod_pos_eq[where q = "100 * a + 25 * b + c + 1"])
  next
    case False
    then show ?thesis using assms
      by (auto intro!: int_mod_pos_eq[where q = "100 * a + 25 * b + c"])
  qed
  have m100: "y mod 100 = (if e = 3 \<and> c = 24 then 0 else 4 * c + e + 1)"
  proof (cases "e = 3 \<and> c = 24")
    case True
    then show ?thesis using assms
      by (auto intro!: int_mod_pos_eq[where q = "4 * a + b + 1"])
  next
    case False
    then have "4 * c + e + 1 < 100" using assms by linarith
    then show ?thesis using False assms
      by (auto intro!: int_mod_pos_eq[where q = "4 * a + b"])
  qed
  have m400: "y mod 400 = (if e = 3 \<and> c = 24 \<and> b = 3 then 0 else 100 * b + 4 * c + e + 1)"
  proof (cases "e = 3 \<and> c = 24 \<and> b = 3")
    case True
    then show ?thesis using assms
      by (auto intro!: int_mod_pos_eq[where q = "a + 1"])
  next
    case False
    then have "100 * b + 4 * c + e + 1 < 400" using assms by linarith
    then show ?thesis using False assms
      by (auto intro!: int_mod_pos_eq[where q = "a"])
  qed
  show ?thesis
    unfolding is_leap_def m4 m100 m400 using assms by auto
qed

lemma ord2ymd_in_year:
  assumes k: "0 \<le> k" "k < 365 + (if is_leap y then 1 else 0)"
  shows "ord2ymd (days_before_year y + k + 1) =
    (if k = 365 then (y, 12, 31)
     else case month_day (is_leap y) k of (m, d) \<Rightarrow> (y, m, d))"
proof -
  obtain a b c e where dec: "y - 1 = 400 * a + 100 * b + 4 * c + e"
    "0 \<le> b" "b \<le> 3" "0 \<le> c" "c \<le> 24" "0 \<le> e" "e \<le> 3"
    by (rule year_decomp)
  note dby = dby_decomp[OF dec]
  note leap = is_leap_decomp[OF dec]
  show ?thesis
  proof (cases "k = 365")
    case True
    with k have lp: "e = 3" "c \<noteq> 24 \<or> b = 3" using leap by (auto split: if_splits)
    show ?thesis
    proof (cases "c = 24")
      case True
      with lp have b3: "b = 3" by simp
      have "ord2ymd (days_before_year y + k + 1) =
             (if (0::int) = 4 \<or> (4::int) = 4 then (400 * a + 100 * 4 + 4 * 0 + 0, 12, 31)
              else case month_day ((0::int) = 3 \<and> ((0::int) \<noteq> 24 \<or> (4::int) = 3)) 0 of
                     (m, d) \<Rightarrow> (400 * a + 1 + 100 * 4 + 4 * 0 + 0, m, d))"
        by (rule ord2ymd_chain[where ?r400.0 = 146096 and ?r100.0 = 0 and ?r4.0 = 0])
           (simp_all add: DI_values dby \<open>k = 365\<close> lp True b3)
      then show ?thesis using \<open>k = 365\<close> dec(1) lp True b3 by simp
    next
      case False
      then have c23: "c \<le> 23" using dec by simp
      have "ord2ymd (days_before_year y + k + 1) =
             (if (4::int) = 4 \<or> b = 4 then (400 * a + 100 * b + 4 * c + 4, 12, 31)
              else case month_day ((4::int) = 3 \<and> (c \<noteq> 24 \<or> b = 3)) 0 of
                     (m, d) \<Rightarrow> (400 * a + 1 + 100 * b + 4 * c + 4, m, d))"
        by (rule ord2ymd_chain[where ?r400.0 = "36524 * b + 1461 * c + 1460"
              and ?r100.0 = "1461 * c + 1460" and ?r4.0 = 1460])
           (use dec(2-7) c23 in \<open>simp_all add: DI_values dby \<open>k = 365\<close> lp\<close>)
      then show ?thesis using \<open>k = 365\<close> dec(1) lp by simp
    qed
  next
    case False
    with k have k364: "k \<le> 364" by (auto split: if_splits)
    have "ord2ymd (days_before_year y + k + 1) =
           (if e = 4 \<or> b = 4 then (400 * a + 100 * b + 4 * c + e, 12, 31)
            else case month_day (e = 3 \<and> (c \<noteq> 24 \<or> b = 3)) k of
                   (m, d) \<Rightarrow> (400 * a + 1 + 100 * b + 4 * c + e, m, d))"
      by (rule ord2ymd_chain[where ?r400.0 = "36524 * b + 1461 * c + 365 * e + k"
            and ?r100.0 = "1461 * c + 365 * e + k" and ?r4.0 = "365 * e + k"])
         (use dec(2-7) k(1) k364 in \<open>simp_all add: DI_values dby\<close>)
    moreover have "400 * a + 1 + 100 * b + 4 * c + e = y" using dec(1) by simp
    ultimately show ?thesis using False dec leap by simp
  qed
qed

lemma month_day_table_common: "\<forall>m\<in>{1..12}. \<forall>d\<in>{1..dim_l False m}. md_ok False m d"
  by code_simp

lemma month_day_table_leap: "\<forall>m\<in>{1..12}. \<forall>d\<in>{1..dim_l True m}. md_ok True m d"
  by code_simp

lemma month_day_inv_table_common: "\<forall>k\<in>{0..364}. k_ok False k"
  by code_simp

lemma month_day_inv_table_leap: "\<forall>k\<in>{0..364}. k_ok True k"
  by code_simp

lemma md_ok_all: "1 \<le> m \<Longrightarrow> m \<le> 12 \<Longrightarrow> 1 \<le> d \<Longrightarrow> d \<le> dim_l leap m \<Longrightarrow> md_ok leap m d"
  using month_day_table_common month_day_table_leap by (cases leap) simp_all

lemma k_ok_all: "0 \<le> k \<Longrightarrow> k \<le> 364 \<Longrightarrow> k_ok leap k"
  using month_day_inv_table_common month_day_inv_table_leap by (cases leap) simp_all

lemma ord2ymd_ymd2ord:
  assumes "1 \<le> m" "m \<le> 12" "1 \<le> d" "d \<le> days_in_month y m"
  shows "ord2ymd (ymd2ord y m d) = (y, m, d)"
proof -
  define k where "k = dbm_l (is_leap y) m + d - 1"
  have dim: "d \<le> dim_l (is_leap y) m"
    using assms(4) by (simp add: days_in_month_def dim_l_def)
  have t: "0 \<le> k \<and> k < 365 + (if is_leap y then 1 else 0)
       \<and> (if k = 365 then m = 12 \<and> d = 31 else month_day (is_leap y) k = (m, d))"
    using md_ok_all[OF assms(1-3) dim] unfolding md_ok_def k_def Let_def .
  have o: "ymd2ord y m d = days_before_year y + k + 1"
    by (simp add: ymd2ord_def days_before_month_def k_def dbm_l_def)
  show ?thesis
    unfolding o using ord2ymd_in_year[of k y] t
    by (auto split: if_splits)
qed

subsection \<open>\<^verbatim>\<open>_ymd2ord\<close> inverts \<^verbatim>\<open>_ord2ymd\<close>\<close>

lemma dby_mono_strong: "y \<le> z \<Longrightarrow> days_before_year y + 365 * (z - y) \<le> days_before_year z"
proof (induction z rule: int_ge_induct)
  case base
  then show ?case by simp
next
  case (step i)
  then show ?case using dby_Suc[of i] by (simp add: algebra_simps)
qed

lemma dby_mono: "y \<le> z \<Longrightarrow> days_before_year y \<le> days_before_year z"
  using dby_mono_strong[of y z] by (smt (verit) mult_nonneg_nonneg)

lemma dby_1: "days_before_year 1 = 0"
  by (simp add: days_before_year_def)

lemma year_exists:
  "1 \<le> n \<Longrightarrow> \<exists>y. 1 \<le> y \<and> days_before_year y < n \<and> n \<le> days_before_year (y + 1)"
proof (induction n rule: int_ge_induct)
  case base
  show ?case using dby_Suc[of 1] dby_1 by (intro exI[of _ 1]) simp
next
  case (step i)
  then obtain y where y: "1 \<le> y" "days_before_year y < i" "i \<le> days_before_year (y + 1)"
    by blast
  show ?case
  proof (cases "i + 1 \<le> days_before_year (y + 1)")
    case True
    with y show ?thesis by (intro exI[of _ y]) simp
  next
    case False
    with y dby_Suc[of "y + 1"] show ?thesis by (intro exI[of _ "y + 1"]) (simp add: algebra_simps)
  qed
qed

lemma ord2ymd_props:
  assumes "1 \<le> n"
  obtains y m d where "ord2ymd n = (y, m, d)" "1 \<le> y"
    "days_before_year y < n" "n \<le> days_before_year (y + 1)"
    "1 \<le> m" "m \<le> 12" "1 \<le> d" "d \<le> days_in_month y m" "ymd2ord y m d = n"
proof -
  obtain y where y: "1 \<le> y" "days_before_year y < n" "n \<le> days_before_year (y + 1)"
    using year_exists[OF assms] by blast
  define k where "k = n - days_before_year y - 1"
  have k: "0 \<le> k" "k < 365 + (if is_leap y then 1 else 0)"
    using y dby_Suc[of y] by (simp_all add: k_def)
  have n: "n = days_before_year y + k + 1" by (simp add: k_def)
  note o = ord2ymd_in_year[OF k, folded n]
  show thesis
  proof (cases "k = 365")
    case True
    with k have leap: "is_leap y" by (simp split: if_splits)
    have "ord2ymd n = (y, 12, 31)" using o True by simp
    moreover have "days_in_month y 12 = 31"
      by (simp add: days_in_month_def DAYS_IN_MONTH_def)
    moreover have "ymd2ord y 12 31 = n"
      using leap True by (simp add: n ymd2ord_def days_before_month_def DAYS_BEFORE_MONTH_def)
    ultimately show ?thesis using that[of y 12 31] y by simp
  next
    case False
    with k have "k \<le> 364" by (simp split: if_splits)
    from k_ok_all[OF k(1) this, of "is_leap y"]
    obtain m d where md: "month_day (is_leap y) k = (m, d)" "1 \<le> m" "m \<le> 12" "1 \<le> d"
      "d \<le> dim_l (is_leap y) m" "dbm_l (is_leap y) m + d - 1 = k"
      unfolding k_ok_def by (cases "month_day (is_leap y) k") auto
    have "ord2ymd n = (y, m, d)" using o False md(1) by simp
    moreover have "d \<le> days_in_month y m"
      using md(5) by (simp add: days_in_month_def dim_l_def)
    moreover have "ymd2ord y m d = n"
      using md(6) by (simp add: n ymd2ord_def days_before_month_def dbm_l_def)
    ultimately show ?thesis using that[of y m d] y md by simp
  qed
qed

lemma MAXORDINAL_dby: "MAXORDINAL = days_before_year 10000"
  by (simp add: MAXORDINAL_def days_before_year_def)

lemma ord2ymd_valid:
  assumes "1 \<le> n" "n \<le> MAXORDINAL"
  shows "case ord2ymd n of (y, m, d) \<Rightarrow> check_date_fields y m d \<and> ymd2ord y m d = n"
proof -
  from ord2ymd_props[OF assms(1)] obtain y m d where p: "ord2ymd n = (y, m, d)" "1 \<le> y"
    "days_before_year y < n" "n \<le> days_before_year (y + 1)"
    "1 \<le> m" "m \<le> 12" "1 \<le> d" "d \<le> days_in_month y m" "ymd2ord y m d = n"
    by blast
  have "y \<le> 9999"
  proof (rule ccontr)
    assume "\<not> y \<le> 9999"
    then have "days_before_year 10000 \<le> days_before_year y" by (intro dby_mono) simp
    with p(3) assms(2) show False by (simp add: MAXORDINAL_dby)
  qed
  with p show ?thesis by (simp add: check_date_fields_def MINYEAR_def MAXYEAR_def)
qed

lemma fromordinal_toordinal:
  "check_date_fields (year dt) (month dt) (day dt) \<Longrightarrow> fromordinal (toordinal dt) = dt"
  by (simp add: fromordinal_def toordinal_def check_date_fields_def ord2ymd_ymd2ord)

lemma toordinal_fromordinal:
  "1 \<le> n \<Longrightarrow> toordinal (fromordinal n) = n"
proof -
  assume "1 \<le> n"
  from ord2ymd_props[OF this] obtain y m d where "ord2ymd n = (y, m, d)" "ymd2ord y m d = n"
    by blast
  then show ?thesis by (simp add: fromordinal_def toordinal_def)
qed

section \<open>ISO weeks\<close>

subsection \<open>The Monday of week 1\<close>

lemma ymd2ord_jan: "ymd2ord y 1 d = days_before_year y + d"
  by (simp add: ymd2ord_def days_before_month_def DAYS_BEFORE_MONTH_def)

lemma isoweek1monday_alt:
  "isoweek1monday y =
     (if days_before_year y mod 7 > 3 then days_before_year y + 8 - days_before_year y mod 7
      else days_before_year y + 1 - days_before_year y mod 7)"
proof -
  have "(days_before_year y + 1 + 6) mod 7 = days_before_year y mod 7"
    by (simp add: add.assoc)
  then show ?thesis
    unfolding isoweek1monday_def ymd2ord_jan Let_def by simp
qed

lemma w1_abs:
  fixes D r :: int
  assumes "0 \<le> r" "r < 7" "W = (if r > 3 then D + 8 - r else D + 1 - r)"
  shows "D - 2 \<le> W" "W \<le> D + 4"
  using assms by (auto split: if_splits)

lemma isoweek1monday_bounds:
  "days_before_year y - 2 \<le> isoweek1monday y" "isoweek1monday y \<le> days_before_year y + 4"
  using w1_abs[OF _ _ isoweek1monday_alt, of y] by simp_all

lemma isoweek1monday_mod: "(isoweek1monday y - 1) mod 7 = 0"
proof -
  define D where "D = days_before_year y"
  define q where "q = D div 7"
  define r where "r = D mod 7"
  have D: "D = 7 * q + r" by (simp add: q_def r_def)
  have "isoweek1monday y - 1 = 7 * (q + (if r > 3 then 1 else 0))"
    unfolding isoweek1monday_alt D_def[symmetric] r_def[symmetric] using D
    by (simp split: if_splits)
  then show ?thesis by simp
qed

lemma isoweek1monday_dvd: "7 dvd (isoweek1monday y - isoweek1monday z)"
proof -
  have a: "7 dvd (isoweek1monday y - 1)" using isoweek1monday_mod[of y] by (rule mod_0_imp_dvd)
  have b: "7 dvd (isoweek1monday z - 1)" using isoweek1monday_mod[of z] by (rule mod_0_imp_dvd)
  have "7 dvd ((isoweek1monday y - 1) - (isoweek1monday z - 1))" using a b by (rule dvd_diff)
  then show ?thesis by simp
qed

lemma isoweek1monday_step:
  "isoweek1monday (y + 1) - isoweek1monday y = 364 \<or> isoweek1monday (y + 1) - isoweek1monday y = 371"
proof -
  obtain q where q: "isoweek1monday (y + 1) - isoweek1monday y = 7 * q"
    using isoweek1monday_dvd[of "y + 1" y] by (auto simp: dvd_def)
  have "359 \<le> 7 * q" "7 * q \<le> 372"
    using isoweek1monday_bounds[of y] isoweek1monday_bounds[of "y + 1"] dby_Suc[of y] q
    by (auto split: if_splits)
  then have "q = 52 \<or> q = 53" by auto
  with q show ?thesis by auto
qed

lemma isoweek1monday_1: "isoweek1monday 1 = 1"
  by (simp add: isoweek1monday_alt dby_1)

lemma isoweek1monday_10000: "isoweek1monday 10000 = 3652062"
  by (simp add: isoweek1monday_alt days_before_year_def)

lemma isoweek1monday_pos: "1 \<le> y \<Longrightarrow> 1 \<le> isoweek1monday y"
proof -
  assume "1 \<le> y"
  show ?thesis
  proof (cases "y = 1")
    case True
    then show ?thesis by (simp add: isoweek1monday_1)
  next
    case False
    with \<open>1 \<le> y\<close> have "2 \<le> y" by simp
    from dby_mono[OF this] dby_Suc[of 1] dby_1 have "365 \<le> days_before_year y" 
      by (simp add: is_leap_def)
    with isoweek1monday_bounds(1)[of y] show ?thesis by simp
  qed
qed

subsection \<open>\<^verbatim>\<open>_calculate_weekdate\<close> as an ordinal\<close>

lemma isocalendar_weekday:
  "snd (snd (isocalendar dt)) = (toordinal dt - 1) mod 7 + 1"
proof -
  have "(toordinal dt - isoweek1monday z) mod 7 = (toordinal dt - 1) mod 7" for z
  proof -
    have "(toordinal dt - isoweek1monday z) mod 7
           = ((toordinal dt - 1) - (isoweek1monday z - 1)) mod 7" by simp
    also have "\<dots> = ((toordinal dt - 1) mod 7 - (isoweek1monday z - 1) mod 7) mod 7"
      by (rule mod_diff_eq[symmetric])
    also have "\<dots> = (toordinal dt - 1) mod 7"
      by (simp add: isoweek1monday_mod)
    finally show ?thesis .
  qed
  then show ?thesis
    unfolding isocalendar_def Let_def toordinal_def[symmetric]
    by (simp split: if_splits)
qed

lemma jan4_week1:
  "days_before_year y + 4 - ((days_before_year y + 4 - 1) mod 7 + 1 - 1) = isoweek1monday y"
proof -
  define D where "D = days_before_year y"
  define q where "q = D div 7"
  define r where "r = D mod 7"
  have D: "D = 7 * q + r" by (simp add: q_def r_def)
  have r: "0 \<le> r" "r < 7" by (simp_all add: r_def)
  have m: "(D + 3) mod 7 = (if r > 3 then r - 4 else r + 3)"
  proof (cases "r > 3")
    case True
    then show ?thesis using r D by (auto intro!: int_mod_pos_eq[where q = "q + 1"])
  next
    case False
    then show ?thesis using r D by (auto intro!: int_mod_pos_eq[where q = "q"])
  qed
  have e: "D + 4 - 1 = D + 3" by simp
  have "D + 4 - ((D + 4 - 1) mod 7 + 1 - 1) = (if r > 3 then D + 8 - r else D + 1 - r)"
    unfolding e m by (simp split: if_splits)
  then show ?thesis
    unfolding isoweek1monday_alt D_def[symmetric] r_def[symmetric] .
qed

lemma date_new_jan: "1 \<le> y \<Longrightarrow> y \<le> 9999 \<Longrightarrow>
  date_new (y, 1, 4) = Inr \<lparr>year = y, month = 1, day = 4\<rparr>"
  by (simp add: date_new_def check_date_fields_def MINYEAR_def MAXYEAR_def
        days_in_month_def DAYS_IN_MONTH_def)

lemma dby_9999: "days_before_year 9999 + 4 \<le> MAXORDINAL"
  by (simp add: days_before_year_def MAXORDINAL_def)

lemma calculate_weekdate_ord:
  assumes y: "1 \<le> y" "y \<le> 9999" and w: "0 < week" "week < 54" and d: "0 < wday" "wday < 8"
    and ub: "isoweek1monday y + ((week - 1) * 7 + (wday - 1)) \<le> MAXORDINAL"
  shows "priv_calculate_weekdate y week wday
         = Inr (fromordinal (isoweek1monday y + ((week - 1) * 7 + (wday - 1))))"
proof -
  let ?jan4 = "\<lparr>year = y, month = 1, day = 4\<rparr>"
  define off where "off = (week - 1) * 7 + (wday - 1)"
  have t4: "toordinal ?jan4 = days_before_year y + 4"
    by (simp add: toordinal_def ymd2ord_jan)
  have o: "toordinal ?jan4 + - (snd (snd (isocalendar ?jan4)) - 1) = isoweek1monday y"
    unfolding isocalendar_weekday t4 using jan4_week1[of y] by simp
  have pos: "1 \<le> isoweek1monday y" by (rule isoweek1monday_pos[OF y(1)])
  have "isoweek1monday y \<le> days_before_year 9999 + 4"
    using isoweek1monday_bounds(2)[of y] dby_mono[OF y(2)] by simp
  then have le: "isoweek1monday y \<le> MAXORDINAL" using dby_9999 by simp
  have w1: "date_sub_days ?jan4 (snd (snd (isocalendar ?jan4)) - 1)
            = Inr (fromordinal (isoweek1monday y))"
    unfolding date_sub_days_def date_add_days_def Let_def o using pos le by simp
  have off: "0 \<le> off" using w d by (simp add: off_def)
  have w2: "date_add_days (fromordinal (isoweek1monday y)) off
            = Inr (fromordinal (isoweek1monday y + off))"
    unfolding date_add_days_def Let_def toordinal_fromordinal[OF pos]
    using pos off ub by (simp add: off_def)
  have "priv_calculate_weekdate y week wday = Inr (fromordinal (isoweek1monday y + off))"
    unfolding priv_calculate_weekdate_def Let_def off_def[symmetric] date_new_jan[OF y]
    using w d by (simp add: ebind_def w1 w2)
  then show ?thesis by (simp only: off_def)
qed

subsection \<open>\<^verbatim>\<open>isocalendar\<close> and the ISO year of an ordinal\<close>

lemma toordinal_bounds:
  assumes "1 \<le> month dt" "month dt \<le> 12" "1 \<le> day dt"
    "day dt \<le> days_in_month (year dt) (month dt)"
  shows "days_before_year (year dt) < toordinal dt"
    "toordinal dt \<le> days_before_year (year dt + 1)"
proof -
  define k where "k = dbm_l (is_leap (year dt)) (month dt) + day dt - 1"
  have dim: "day dt \<le> dim_l (is_leap (year dt)) (month dt)"
    using assms(4) by (simp add: days_in_month_def dim_l_def)
  have t: "0 \<le> k \<and> k < 365 + (if is_leap (year dt) then 1 else 0)"
    using md_ok_all[OF assms(1-3) dim] unfolding md_ok_def k_def Let_def by simp
  have o: "toordinal dt = days_before_year (year dt) + k + 1"
    by (simp add: toordinal_def ymd2ord_def days_before_month_def k_def dbm_l_def)
  show "days_before_year (year dt) < toordinal dt" using t o by simp
  show "toordinal dt \<le> days_before_year (year dt + 1)"
    using t o dby_Suc[of "year dt"] by (simp split: if_splits)
qed

lemma div7_neg: "((a::int) div 7 < 0) = (a < 0)"
  by (simp add: pos_imp_zdiv_neg_iff)

lemma isocalendar_cases:
  "isocalendar dt =
     (if toordinal dt < isoweek1monday (year dt)
      then (year dt - 1, (toordinal dt - isoweek1monday (year dt - 1)) div 7 + 1,
            (toordinal dt - isoweek1monday (year dt - 1)) mod 7 + 1)
      else if (toordinal dt - isoweek1monday (year dt)) div 7 \<ge> 52
              \<and> toordinal dt \<ge> isoweek1monday (year dt + 1)
      then (year dt + 1, 1, (toordinal dt - isoweek1monday (year dt)) mod 7 + 1)
      else (year dt, (toordinal dt - isoweek1monday (year dt)) div 7 + 1,
            (toordinal dt - isoweek1monday (year dt)) mod 7 + 1))"
  unfolding isocalendar_def Let_def toordinal_def[symmetric] div7_neg by simp

lemma isoweek1monday_mono: "y \<le> z \<Longrightarrow> isoweek1monday y \<le> isoweek1monday z"
proof (induction z rule: int_ge_induct)
  case base
  then show ?case by simp
next
  case (step i)
  then show ?case using isoweek1monday_step[of i] by auto
qed

lemma iso_year_unique:
  assumes "isoweek1monday z \<le> n" "n < isoweek1monday (z + 1)"
    "isoweek1monday y \<le> n" "n < isoweek1monday (y + 1)"
  shows "z = y"
proof (rule ccontr)
  assume "z \<noteq> y"
  then consider "z < y" | "y < z" by linarith
  then show False
  proof cases
    case 1
    then have "isoweek1monday (z + 1) \<le> isoweek1monday y" by (intro isoweek1monday_mono) simp
    with assms show False by simp
  next
    case 2
    then have "isoweek1monday (y + 1) \<le> isoweek1monday z" by (intro isoweek1monday_mono) simp
    with assms show False by simp
  qed
qed

lemma mod7_shift:
  fixes n B C :: int
  assumes "7 dvd (C - B)"
  shows "(n - B) mod 7 = (n - C) mod 7"
proof -
  obtain q where "C - B = 7 * q" using assms by (auto simp: dvd_def)
  then have "n - B = (n - C) + q * 7" by simp
  then show ?thesis by (metis mod_mult_self1)
qed

lemma isocalendar_props:
  assumes "1 \<le> month dt" "month dt \<le> 12" "1 \<le> day dt"
    "day dt \<le> days_in_month (year dt) (month dt)"
  obtains z where
    "isocalendar dt = (z, (toordinal dt - isoweek1monday z) div 7 + 1,
                          (toordinal dt - isoweek1monday z) mod 7 + 1)"
    "isoweek1monday z \<le> toordinal dt" "toordinal dt < isoweek1monday (z + 1)"
    "year dt - 1 \<le> z" "z \<le> year dt + 1"
proof -
  define n where "n = toordinal dt"
  define Y where "Y = year dt"
  define A where "A = isoweek1monday (Y - 1)"
  define B where "B = isoweek1monday Y"
  define C where "C = isoweek1monday (Y + 1)"
  define E where "E = isoweek1monday (Y + 2)"
  note b = toordinal_bounds[OF assms, folded n_def Y_def]
  have AB: "B - A = 364 \<or> B - A = 371"
    using isoweek1monday_step[of "Y - 1"] by (simp add: A_def B_def)
  have BC: "C - B = 364 \<or> C - B = 371"
    using isoweek1monday_step[of Y] by (simp add: C_def B_def)
  have CE: "E - C = 364 \<or> E - C = 371"
    using isoweek1monday_step[of "Y + 1"] by (simp add: C_def E_def add.assoc)
  have Bb: "days_before_year Y - 2 \<le> B" "B \<le> days_before_year Y + 4"
    using isoweek1monday_bounds[of Y] by (simp_all add: B_def)
  have Cb: "days_before_year (Y + 1) - 2 \<le> C" "C \<le> days_before_year (Y + 1) + 4"
    using isoweek1monday_bounds[of "Y + 1"] by (simp_all add: C_def)
  have yr: "days_before_year (Y + 1) - days_before_year Y \<le> 366"
    "365 \<le> days_before_year (Y + 1) - days_before_year Y"
    using dby_Suc[of Y] by (simp_all split: if_splits)
  note ic = isocalendar_cases[of dt, folded n_def Y_def, folded A_def B_def C_def]
  consider (prev) "n < B" | (nxt) "B \<le> n" "C \<le> n" | (same) "B \<le> n" "n < C"
    by linarith
  then show thesis
  proof cases
    case prev
    have "isocalendar dt = (Y - 1, (n - A) div 7 + 1, (n - A) mod 7 + 1)"
      using ic prev by simp
    moreover have "A \<le> n" using AB Bb b by linarith
    ultimately show ?thesis
      using that[of "Y - 1"] prev by (simp add: n_def Y_def A_def B_def)
  next
    case nxt
    have "364 \<le> n - B" using nxt BC by linarith
    then have "52 \<le> (n - B) div 7" by simp
    then have i: "isocalendar dt = (Y + 1, 1, (n - B) mod 7 + 1)"
      using ic nxt by simp
    have r: "0 \<le> n - C" "n - C < 7" using nxt Cb b by linarith+
    have "(n - B) mod 7 = (n - C) mod 7"
      by (rule mod7_shift) (use isoweek1monday_dvd[of "Y + 1" Y] in \<open>simp add: C_def B_def\<close>)
    moreover have "(n - C) mod 7 = n - C" "(n - C) div 7 = 0" using r by simp_all
    ultimately have "isocalendar dt = (Y + 1, (n - C) div 7 + 1, (n - C) mod 7 + 1)"
      using i by simp
    moreover have "n < E" using CE r by linarith
    ultimately show ?thesis
      using that[of "Y + 1"] nxt by (simp add: n_def Y_def C_def E_def add.assoc)
  next
    case same
    have "isocalendar dt = (Y, (n - B) div 7 + 1, (n - B) mod 7 + 1)"
      using ic same by simp
    then show ?thesis
      using that[of Y] same by (simp add: n_def Y_def B_def C_def)
  qed
qed

lemma isocalendar_inverse:
  assumes v: "check_date_fields (year dt) (month dt) (day dt)"
    and i: "isocalendar dt = (iy, iw, iwd)"
  shows "1 \<le> iy \<and> iy \<le> 9999 \<and> 1 \<le> iw \<and> iw \<le> 53 \<and> 1 \<le> iwd \<and> iwd \<le> 7
         \<and> isoweek1monday iy + ((iw - 1) * 7 + (iwd - 1)) = toordinal dt
         \<and> 1 \<le> toordinal dt \<and> toordinal dt \<le> MAXORDINAL"
proof -
  define n where "n = toordinal dt"
  have md: "1 \<le> month dt" "month dt \<le> 12" "1 \<le> day dt"
    "day dt \<le> days_in_month (year dt) (month dt)" and yr: "1 \<le> year dt" "year dt \<le> 9999"
    using v by (simp_all add: check_date_fields_def MINYEAR_def MAXYEAR_def)
  note b = toordinal_bounds[OF md, folded n_def]
  have n1: "1 \<le> n" using b(1) dby_mono[OF yr(1)] dby_1 by simp
  have nM: "n \<le> MAXORDINAL"
    using b(2) dby_mono[of "year dt + 1" 10000] yr(2) by (simp add: MAXORDINAL_dby)
  from isocalendar_props[OF md] obtain z where z:
    "isocalendar dt = (z, (n - isoweek1monday z) div 7 + 1, (n - isoweek1monday z) mod 7 + 1)"
    "isoweek1monday z \<le> n" "n < isoweek1monday (z + 1)"
    "year dt - 1 \<le> z" "z \<le> year dt + 1"
    unfolding n_def by blast
  define j where "j = n - isoweek1monday z"
  have eq: "iy = z" "iw = j div 7 + 1" "iwd = j mod 7 + 1"
    using i z(1) by (auto simp: j_def)
  have j: "0 \<le> j" "j < 371"
    using z(2,3) isoweek1monday_step[of z] by (auto simp: j_def)
  have z1: "1 \<le> z"
  proof (rule ccontr)
    assume "\<not> 1 \<le> z"
    then have "isoweek1monday (z + 1) \<le> isoweek1monday 1" by (intro isoweek1monday_mono) simp
    with z(3) n1 show False by (simp add: isoweek1monday_1)
  qed
  have zM: "z \<le> 9999"
  proof (rule ccontr)
    assume "\<not> z \<le> 9999"
    then have "isoweek1monday 10000 \<le> isoweek1monday z" by (intro isoweek1monday_mono) simp
    with z(2) nM show False by (simp add: isoweek1monday_10000 MAXORDINAL_def)
  qed
  have w: "0 \<le> j div 7" "j div 7 \<le> 52" using j by simp_all
  have wd: "0 \<le> j mod 7" "j mod 7 < 7" by simp_all
  have re: "(j div 7) * 7 + j mod 7 = j" by simp
  have "isoweek1monday z + ((j div 7 + 1 - 1) * 7 + (j mod 7 + 1 - 1)) = n"
    using re by (simp add: j_def)
  then show ?thesis
    unfolding eq n_def[symmetric] using z1 zM w wd n1 nM by simp
qed

lemma calculate_weekdate_isocalendar:
  assumes v: "check_date_fields (year dt) (month dt) (day dt)"
    and i: "isocalendar dt = (iy, iw, iwd)"
  shows "priv_calculate_weekdate iy iw iwd = Inr dt"
proof -
  note p = isocalendar_inverse[OF v i]
  have "priv_calculate_weekdate iy iw iwd
        = Inr (fromordinal (isoweek1monday iy + ((iw - 1) * 7 + (iwd - 1))))"
    by (rule calculate_weekdate_ord) (use p in simp_all)
  also have "\<dots> = Inr dt"
    using p fromordinal_toordinal[OF v] by simp
  finally show ?thesis .
qed

lemma isocalendar_fromordinal:
  assumes "1 \<le> y" "0 \<le> j" "isoweek1monday y + j < isoweek1monday (y + 1)"
  shows "isocalendar (fromordinal (isoweek1monday y + j)) = (y, j div 7 + 1, j mod 7 + 1)"
proof -
  define n where "n = isoweek1monday y + j"
  have n1: "1 \<le> n" using isoweek1monday_pos[OF assms(1)] assms(2) by (simp add: n_def)
  from ord2ymd_props[OF n1] obtain Y m d where p: "ord2ymd n = (Y, m, d)"
    "1 \<le> m" "m \<le> 12" "1 \<le> d" "d \<le> days_in_month Y m" "ymd2ord Y m d = n"
    by blast
  define dt where "dt = fromordinal n"
  have dt: "year dt = Y" "month dt = m" "day dt = d"
    using p(1) by (simp_all add: dt_def fromordinal_def)
  have t: "toordinal dt = n" using p(6) dt by (simp add: toordinal_def)
  have md: "1 \<le> month dt" "month dt \<le> 12" "1 \<le> day dt"
    "day dt \<le> days_in_month (year dt) (month dt)"
    using p dt by simp_all
  from isocalendar_props[OF md] obtain z where z:
    "isocalendar dt = (z, (n - isoweek1monday z) div 7 + 1, (n - isoweek1monday z) mod 7 + 1)"
    "isoweek1monday z \<le> n" "n < isoweek1monday (z + 1)"
    unfolding t by blast
  have "z = y"
    by (rule iso_year_unique[OF z(2,3)]) (use assms in \<open>simp_all add: n_def\<close>)
  then show ?thesis
    using z(1) unfolding dt_def by (simp add: n_def)
qed

section \<open>Digit strings\<close>

lemma is_digit_digit_char: "0 \<le> n \<Longrightarrow> n \<le> 9 \<Longrightarrow> is_digit (digit_char n)"
  by (simp add: is_digit_def digit_char_def Let_def)

lemma digit_val_digit_char: "0 \<le> n \<Longrightarrow> n \<le> 9 \<Longrightarrow> digit_val (digit_char n) = n"
  by (simp add: digit_val_def digit_char_def)

lemma is_digit_not_space: "is_digit c \<Longrightarrow> \<not> is_space c"
  by (auto simp: is_digit_def is_space_def Let_def)

lemma is_digit_neq:
  assumes "is_digit c"
  shows "c \<noteq> CHR ''-''" "c \<noteq> CHR ''+''" "c \<noteq> CHR ''_''" "c \<noteq> CHR ''W''"
    "c \<noteq> CHR ''Z''" "c \<noteq> CHR '':''" "c \<noteq> CHR ''.''"
  using assms by (auto simp: is_digit_def)

lemma is_digit_not_tz: "is_digit c \<Longrightarrow> \<not> is_tz_char c"
  by (auto simp: is_tz_char_def is_digit_neq)

lemma strip_id:
  assumes "s \<noteq> []" "\<not> is_space (hd s)" "\<not> is_space (last s)"
  shows "strip s = s"
proof -
  have 1: "dropWhile is_space s = s" using assms(2) by (simp add: dropWhile_eq_self_iff)
  have 2: "dropWhile is_space (rev s) = rev s"
    using assms(3) by (simp add: dropWhile_eq_self_iff hd_rev)
  show ?thesis by (simp add: strip_def 1 2)
qed

lemma int_digits_all: "list_all is_digit cs \<Longrightarrow> int_digits acc cs = Some (digits_value acc cs)"
  by (induction cs arbitrary: acc) simp_all

lemma py_int_digits:
  assumes "list_all is_digit s" "s \<noteq> []"
  shows "py_int s = Inr (digits_value 0 s)"
proof -
  obtain c cs where s: "s = c # cs" using assms(2) by (cases s) auto
  have c: "is_digit c" and cs: "list_all is_digit cs" using assms(1) s by simp_all
  have "is_digit (last s)" using assms by (simp add: list_all_iff)
  then have st: "strip (c # cs) = c # cs"
    using c unfolding s by (intro strip_id) (simp_all add: is_digit_not_space)
  show ?thesis
    unfolding s py_int_def st using c cs
    by (simp add: is_digit_neq int_unsigned_def int_digits_all)
qed

lemma py_int_1: "is_digit a \<Longrightarrow> py_int [a] = Inr (digit_val a)"
  using py_int_digits[of "[a]"] by simp

lemma py_int_2: "is_digit a \<Longrightarrow> is_digit b \<Longrightarrow> py_int [a, b] = Inr (10 * digit_val a + digit_val b)"
  using py_int_digits[of "[a, b]"] by simp

lemma py_int_4: "is_digit a \<Longrightarrow> is_digit b \<Longrightarrow> is_digit c \<Longrightarrow> is_digit d \<Longrightarrow>
  py_int [a, b, c, d] = Inr (1000 * digit_val a + 100 * digit_val b + 10 * digit_val c + digit_val d)"
  using py_int_digits[of "[a, b, c, d]"] by simp

lemma py_int_nondigit_head:
  assumes "\<not> is_digit a" "\<not> is_space a" "a \<noteq> CHR ''-''" "a \<noteq> CHR ''+''"
    "\<not> is_space (last (a # s))"
  shows "py_int (a # s) = Inl ValueError"
proof -
  have st: "strip (a # s) = a # s"
    using assms(2,5) by (intro strip_id) simp_all
  show ?thesis
    unfolding py_int_def st using assms(1,3,4) by (simp add: int_unsigned_def)
qed

lemma zfill4_digits:
  fixes n :: int
  assumes "0 \<le> n" "n \<le> 9999"
  shows "0 \<le> n div 1000" "n div 1000 \<le> 9"
    "1000 * (n div 1000) + 100 * (n div 100 mod 10) + 10 * (n div 10 mod 10) + n mod 10 = n"
proof -
  define a where "a = n div 10"
  define b where "b = a div 10"
  define c where "c = b div 10"
  have "n div (10 * 10) = n div 10 div 10" by (rule zdiv_zmult2_eq) simp
  then have e1: "n div 100 = b" by (simp add: a_def b_def)
  have "n div (100 * 10) = n div 100 div 10" by (rule zdiv_zmult2_eq) simp
  then have e2: "n div 1000 = c" by (simp add: e1 c_def)
  note e = e1 e2
  have 1: "n = 10 * a + n mod 10" by (simp add: a_def)
  have 2: "a = 10 * b + a mod 10" by (simp add: b_def)
  have 3: "b = 10 * c + b mod 10" by (simp add: c_def)
  have r: "0 \<le> n mod 10" "0 \<le> a mod 10" "0 \<le> b mod 10" by simp_all
  show "0 \<le> n div 1000" using assms by simp
  show "n div 1000 \<le> 9" using assms by simp
  show "1000 * (n div 1000) + 100 * (n div 100 mod 10) + 10 * (n div 10 mod 10) + n mod 10 = n"
    unfolding e a_def[symmetric] using 1 2 3 by linarith
qed

lemma mod10_digit: "0 \<le> (k::int) mod 10" "k mod 10 \<le> 9"
  by simp_all

section \<open>The parsers on well-formed input\<close>

lemma ebind_simps: "ebind (Inl e) f = Inl e" "ebind (Inr v) f = f v"
  by (simp_all add: ebind_def)

lemma iso_weeks_in_year_step:
  "iso_weeks_in_year y = (isoweek1monday (y + 1) - isoweek1monday y) div 7"
proof -
  let ?dt = "\<lparr>year = y, month = 12, day = 28\<rparr>"
  define n where "n = toordinal ?dt"
  define B where "B = isoweek1monday y"
  define C where "C = isoweek1monday (y + 1)"
  have n: "n = days_before_year (y + 1) - 3"
    unfolding n_def toordinal_def ymd2ord_def days_before_month_def dby_Suc
    by (simp add: DAYS_BEFORE_MONTH_def)
  have BC: "C - B = 364 \<or> C - B = 371"
    using isoweek1monday_step[of y] by (simp add: B_def C_def)
  have Bb: "B \<le> days_before_year y + 4" using isoweek1monday_bounds[of y] by (simp add: B_def)
  have Cb: "days_before_year (y + 1) - 2 \<le> C" "C \<le> days_before_year (y + 1) + 4"
    using isoweek1monday_bounds[of "y + 1"] by (simp_all add: C_def)
  have yr: "365 \<le> days_before_year (y + 1) - days_before_year y"
    using dby_Suc[of y] by (simp split: if_splits)
  have 1: "\<not> n < B" using n Bb yr by linarith
  have 2: "\<not> C \<le> n" using n Cb by linarith
  have "isocalendar ?dt = (y, (n - B) div 7 + 1, (n - B) mod 7 + 1)"
    using isocalendar_cases[of ?dt, folded n_def] 1 2 by (simp add: B_def C_def)
  then have w: "iso_weeks_in_year y = (n - B) div 7 + 1" by (simp add: iso_weeks_in_year_def)
  have r: "C - 7 \<le> n" "n \<le> C - 1" using n Cb by linarith+
  from BC show ?thesis
  proof
    assume a: "C - B = 364"
    then have "357 \<le> n - B" "n - B \<le> 363" using r by linarith+
    then have "(n - B) div 7 = 51" by simp
    then show ?thesis using w a by (simp add: B_def C_def)
  next
    assume a: "C - B = 371"
    then have "364 \<le> n - B" "n - B \<le> 370" using r by linarith+
    then have "(n - B) div 7 = 52" by simp
    then show ?thesis using w a by (simp add: B_def C_def)
  qed
qed

lemma fromordinal_valid:
  assumes "1 \<le> n" "n \<le> MAXORDINAL"
  shows "check_date_fields (year (fromordinal n)) (month (fromordinal n)) (day (fromordinal n))"
  using ord2ymd_valid[OF assms] by (auto simp: fromordinal_def split: prod.splits)

lemma zfill2_val:
  assumes "0 \<le> n" "n \<le> 99"
  shows "10 * digit_val (digit_char (n div 10)) + digit_val (digit_char (n mod 10)) = n"
proof -
  have "0 \<le> n div 10" "n div 10 \<le> 9" using assms by simp_all
  then show ?thesis by (simp add: digit_val_digit_char)
qed

lemma zfill2_digits:
  assumes "0 \<le> n" "n \<le> 99"
  shows "is_digit (digit_char (n div 10))" "is_digit (digit_char (n mod 10))"
proof -
  have "0 \<le> n div 10" "n div 10 \<le> 9" using assms by simp_all
  then show "is_digit (digit_char (n div 10))" by (rule is_digit_digit_char)
  show "is_digit (digit_char (n mod 10))" by (rule is_digit_digit_char) simp_all
qed

lemma zfill4_val:
  assumes "0 \<le> n" "n \<le> 9999"
  shows "1000 * digit_val (digit_char (n div 1000))
         + 100 * digit_val (digit_char (n div 100 mod 10))
         + 10 * digit_val (digit_char (n div 10 mod 10))
         + digit_val (digit_char (n mod 10)) = n"
proof -
  note d = zfill4_digits[OF assms]
  show ?thesis
    unfolding digit_val_digit_char[OF d(1,2)] digit_val_digit_char[OF mod10_digit]
    using d(3) by simp
qed

lemma zfill4_is_digit:
  assumes "0 \<le> n" "n \<le> 9999"
  shows "is_digit (digit_char (n div 1000))" "is_digit (digit_char (n div 100 mod 10))"
    "is_digit (digit_char (n div 10 mod 10))" "is_digit (digit_char (n mod 10))"
  using zfill4_digits(1,2)[OF assms] by (auto intro: is_digit_digit_char mod10_digit)

lemma common_dashed:
  assumes "is_digit a" "is_digit b" "is_digit c" "is_digit d" "is_digit e" "is_digit f"
    "is_digit g" "is_digit h"
  shows "priv_parse_isodate_common [a, b, c, d, CHR ''-'', e, f, CHR ''-'', g, h]
         = Inr ((1000 * digit_val a + 100 * digit_val b + 10 * digit_val c + digit_val d,
                 10 * digit_val e + digit_val f, 10 * digit_val g + digit_val h), 10)"
  using assms
  by (simp add: priv_parse_isodate_common_def py_slice_def ebind_simps Let_def py_int_4 py_int_2)

lemma common_undashed:
  assumes "is_digit a" "is_digit b" "is_digit c" "is_digit d" "is_digit e" "is_digit f"
    "is_digit g" "is_digit h"
  shows "priv_parse_isodate_common [a, b, c, d, e, f, g, h]
         = Inr ((1000 * digit_val a + 100 * digit_val b + 10 * digit_val c + digit_val d,
                 10 * digit_val e + digit_val f, 10 * digit_val g + digit_val h), 8)"
  using assms
  by (simp add: priv_parse_isodate_common_def py_slice_def ebind_simps Let_def py_int_4 py_int_2
        is_digit_neq)

lemma DAYS_IN_MONTH_le_31: "\<forall>m\<in>{1..12}. DAYS_IN_MONTH ! nat m \<le> 31"
  by code_simp

lemma dim_le_31: "1 \<le> m \<Longrightarrow> m \<le> 12 \<Longrightarrow> days_in_month y m \<le> 31"
  using DAYS_IN_MONTH_le_31 by (simp add: days_in_month_def)

lemma W_not_digit: "\<not> is_digit CHR ''W''" "\<not> is_space CHR ''W''"
  by (simp_all add: is_digit_def is_space_def)

lemma common_week_fails:
  assumes "is_digit a" "is_digit b" "is_digit c" "is_digit d" "is_digit e"
  shows "priv_parse_isodate_common (a # b # c # d # CHR ''-'' # CHR ''W'' # e # rest)
         = Inl ValueError"
proof -
  have "py_int [CHR ''W'', e] = Inl ValueError"
    using assms(5) by (intro py_int_nondigit_head) (simp_all add: W_not_digit is_digit_not_space)
  then show ?thesis
    using assms
    by (simp add: priv_parse_isodate_common_def py_slice_def ebind_simps Let_def py_int_4)
qed

lemma uncommon_week_dashed:
  assumes "is_digit a" "is_digit b" "is_digit c" "is_digit d" "is_digit e" "is_digit f"
    "is_digit g"
  shows "priv_parse_isodate_uncommon self [a, b, c, d, CHR ''-'', CHR ''W'', e, f, CHR ''-'', g]
         = ebind (priv_calculate_weekdate
                    (1000 * digit_val a + 100 * digit_val b + 10 * digit_val c + digit_val d)
                    (10 * digit_val e + digit_val f) (digit_val g))
             (\<lambda>base_date. Inr ((year base_date, month base_date, day base_date), 10))"
  using assms
  by (simp add: priv_parse_isodate_uncommon_def py_slice_def py_index_def ebind_simps Let_def
        py_int_4 py_int_2 py_int_1 is_digit_neq)

subsection \<open>The year-less date form\<close>

lemma mod4_between:
  fixes c z :: int
  assumes "c mod 4 = 0" "c < z" "z < c + 4"
  shows "z mod 4 \<noteq> 0"
proof -
  obtain q where q: "c = 4 * q" using assms(1) by (metis mult_div_mod_eq add.right_neutral)
  have "z mod 4 = z - c"
    using assms(2,3) q by (intro int_mod_pos_eq[where q = q]) auto
  with assms(2) show ?thesis by simp
qed

lemma spec_leap_year_upto_props:
  "is_leap (spec_leap_year_upto dy)" "spec_leap_year_upto dy \<le> dy"
  "spec_leap_year_upto dy < z \<Longrightarrow> z \<le> dy \<Longrightarrow> \<not> is_leap z"
proof -
  define c where "c = dy - dy mod 4"
  have c4: "c mod 4 = 0" unfolding c_def by (simp add: minus_mod_eq_mult_div)
  have cb: "c \<le> dy" "dy < c + 4" unfolding c_def by simp_all
  have m4: "(c - 4) mod 4 = 0" using c4 by (metis mod_self minus_mod_self2)
  have m96: "c mod 100 = 0 \<Longrightarrow> (c - 4) mod 100 = 96"
  proof -
    assume "c mod 100 = 0"
    then obtain q where "c = 100 * q" by (metis mult_div_mod_eq add.right_neutral)
    then show ?thesis by (intro int_mod_pos_eq[where q = "q - 1"]) auto
  qed
  show "is_leap (spec_leap_year_upto dy)"
    unfolding spec_leap_year_upto_def Let_def c_def[symmetric]
    using c4 m4 m96 by (auto simp: is_leap_def)
  show "spec_leap_year_upto dy \<le> dy"
    unfolding spec_leap_year_upto_def Let_def c_def[symmetric] using cb by simp
  show "\<not> is_leap z" if a: "spec_leap_year_upto dy < z" "z \<le> dy"
  proof (cases "c mod 100 = 0 \<and> c mod 400 \<noteq> 0")
    case False
    then have "c < z" using a(1) unfolding spec_leap_year_upto_def Let_def c_def[symmetric]
      by (simp split: if_splits)
    then have "z mod 4 \<noteq> 0" using mod4_between[OF c4, of z] a(2) cb by simp
    then show ?thesis by (simp add: is_leap_def)
  next
    case True
    then have l: "c - 4 < z" using a(1) unfolding spec_leap_year_upto_def Let_def c_def[symmetric]
      by simp
    consider "z < c" | "z = c" | "c < z" by linarith
    then show ?thesis
    proof cases
      case 1
      then have "z mod 4 \<noteq> 0" using mod4_between[OF m4, of z] l by simp
      then show ?thesis by (simp add: is_leap_def)
    next
      case 2
      then show ?thesis using True by (simp add: is_leap_def)
    next
      case 3
      then have "z mod 4 \<noteq> 0" using mod4_between[OF c4, of z] a(2) cb by simp
      then show ?thesis by (simp add: is_leap_def)
    qed
  qed
qed

lemma common_yearless_fails:
  assumes "is_digit m2"
  shows "priv_parse_isodate_common (CHR ''-'' # CHR ''-'' # m1 # m2 # rest) = Inl ValueError"
proof -
  have sp: "\<not> is_space CHR ''-''" by (simp add: is_space_def)
  have st: "strip [CHR ''-'', CHR ''-'', m1, m2] = [CHR ''-'', CHR ''-'', m1, m2]"
    using assms sp by (intro strip_id) (simp_all add: is_digit_not_space)
  have "py_int [CHR ''-'', CHR ''-'', m1, m2] = Inl ValueError"
    unfolding py_int_def st by (simp add: int_unsigned_def is_digit_def)
  then show ?thesis
    by (simp add: priv_parse_isodate_common_def py_slice_def ebind_simps Let_def)
qed

lemma uncommon_yearless:
  assumes "is_digit m1" "is_digit m2" "is_digit d1" "is_digit d2"
  shows "priv_parse_isodate_uncommon self [CHR ''-'', CHR ''-'', m1, m2, CHR ''-'', d1, d2]
         = Inr ((if 10 * digit_val m1 + digit_val m2 = 2 \<and> 10 * digit_val d1 + digit_val d2 = 29
                 then spec_leap_year_upto (default_year self) else default_year self,
                 10 * digit_val m1 + digit_val m2, 10 * digit_val d1 + digit_val d2), 7)"
    and "priv_parse_isodate_uncommon self [CHR ''-'', CHR ''-'', m1, m2, d1, d2]
         = Inr ((if 10 * digit_val m1 + digit_val m2 = 2 \<and> 10 * digit_val d1 + digit_val d2 = 29
                 then spec_leap_year_upto (default_year self) else default_year self,
                 10 * digit_val m1 + digit_val m2, 10 * digit_val d1 + digit_val d2), 6)"
  using assms
  by (simp_all add: priv_parse_isodate_uncommon_def py_slice_def py_index_def ebind_simps Let_def
        py_int_2 is_digit_neq spec_leap_year_upto_def)

subsection \<open>The loop of the time parser, iteration by iteration\<close>

text \<open>
  The equation of \<open>parse_isotime_loop\<close> is unfolded one iteration at a time: a two-digit
  field, the fraction, a time zone, the end of the loop.
\<close>

declare parse_isotime_loop.simps [simp del]

lemma loop_done:
  "\<not> (pos < length t \<and> cmp < 5) \<Longrightarrow> parse_isotime_loop t hs pos cmp c = Inr (c, pos)"
  by (subst parse_isotime_loop.simps) auto

lemma loop_tz:
  assumes "pos < length t" "cmp < 5" "is_tz_char (t ! pos)"
  shows "parse_isotime_loop t hs pos cmp c =
           (case parse_tzstr (drop pos t) True of
              Inl e \<Rightarrow> Inl e
            | Inr z \<Rightarrow> Inr (c\<lparr>tz := Some z\<rparr>, length t))"
  using assms by (subst parse_isotime_loop.simps) simp

lemma loop_field:
  assumes "pos < length t" "cmp < 2" "\<not> is_tz_char (t ! pos)"
  shows "parse_isotime_loop t hs pos cmp c =
           (case py_int (py_slice t pos (pos + 2)) of
              Inl e \<Rightarrow> Inl e
            | Inr v \<Rightarrow>
                parse_isotime_loop t hs
                  (if hs \<and> pos + 2 < length t \<and> t ! (pos + 2) = CHR '':'' then pos + 3
                   else pos + 2)
                  (cmp + 1) (set_component c (cmp + 1) v))"
proof -
  have 3: "pos + 3 = Suc (Suc (Suc pos))" by simp
  show ?thesis
    using assms
    by (subst parse_isotime_loop.simps) (auto simp: Let_def 3 split: sum.splits)
qed

lemma loop_frac:
  assumes "pos < length t" "t ! pos = CHR ''.''"
    "py_int (microsecond_end_split (py_slice t (pos + 1) (pos + 1 + 6))) = Inr v"
  shows "parse_isotime_loop t hs pos 2 c =
           parse_isotime_loop t hs
             (pos + 1 + length (microsecond_end_split (py_slice t (pos + 1) (pos + 1 + 6)))) 3
             (c\<lparr>microsecond :=
                  v * 10 ^ (6 - length (microsecond_end_split (py_slice t (pos + 1) (pos + 1 + 6))))\<rparr>)"
  using assms
  by (subst parse_isotime_loop.simps) (simp add: Let_def is_tz_char_def set_component_def)

lemma split_digits_tz:
  assumes "list_all is_digit fs" "length fs \<le> 6" "rest = [] \<or> is_tz_char (hd rest)"
  shows "microsecond_end_split (take 6 (fs @ rest)) = fs"
proof -
  have nt: "\<forall>c\<in>set fs. \<not> is_tz_char c"
    using assms(1) by (auto simp: list_all_iff is_digit_not_tz)
  have t: "take 6 (fs @ rest) = fs @ take (6 - length fs) rest"
    using assms(2) by simp
  show ?thesis
  proof (cases "take (6 - length fs) rest")
    case Nil
    show ?thesis unfolding t Nil microsecond_end_split_def using nt by simp
  next
    case (Cons x xs)
    then have "rest \<noteq> []" by auto
    with Cons assms(3) have "is_tz_char x"
      by (cases rest) (auto simp: take_Cons' split: if_splits)
    then show ?thesis
      unfolding t microsecond_end_split_def Cons using nt by (simp add: takeWhile_append2)
  qed
qed

lemma loop_tail_tz:
  assumes "length P = pos" "cmp < 5" "rest = [] \<or> is_tz_char (hd rest)"
  shows "parse_isotime_loop (P @ rest) hs pos cmp c =
           (if rest = [] then Inr (c, pos)
            else case parse_tzstr rest True of
                   Inl e \<Rightarrow> Inl e
                 | Inr z \<Rightarrow> Inr (c\<lparr>tz := Some z\<rparr>, pos + length rest))"
proof (cases "rest = []")
  case True
  then show ?thesis using assms(1) by (simp add: loop_done)
next
  case False
  then have "is_tz_char ((P @ rest) ! pos)" "pos < length (P @ rest)"
    using assms(1,3) by (auto simp: nth_append hd_conv_nth)
  from loop_tz[OF this(2) assms(2) this(1)] show ?thesis
    using False assms(1) by (auto split: sum.splits)
qed

lemma loop_frac_tail:
  assumes P: "length P = pos" and fs: "list_all is_digit fs" "1 \<le> length fs" "length fs \<le> 6"
    and rest: "rest = [] \<or> is_tz_char (hd rest)"
  shows "parse_isotime_loop (P @ CHR ''.'' # fs @ rest) hs pos 2 c =
           (if rest = []
            then Inr (c\<lparr>microsecond := digits_value 0 fs * 10 ^ (6 - length fs)\<rparr>,
                      pos + 1 + length fs)
            else case parse_tzstr rest True of
                   Inl e \<Rightarrow> Inl e
                 | Inr z \<Rightarrow>
                     Inr (c\<lparr>microsecond := digits_value 0 fs * 10 ^ (6 - length fs),
                            tz := Some z\<rparr>, pos + 1 + length fs + length rest))"
proof -
  let ?t = "P @ CHR ''.'' # fs @ rest"
  have sl: "py_slice ?t (pos + 1) (pos + 1 + 6) = take 6 (fs @ rest)"
    using P by (simp add: py_slice_def)
  have us: "microsecond_end_split (py_slice ?t (pos + 1) (pos + 1 + 6)) = fs"
    unfolding sl by (rule split_digits_tz[OF fs(1,3) rest])
  have pi: "py_int fs = Inr (digits_value 0 fs)"
    using fs by (intro py_int_digits) auto
  have 1: "parse_isotime_loop ?t hs pos 2 c =
           parse_isotime_loop ?t hs (pos + 1 + length fs) 3
             (c\<lparr>microsecond := digits_value 0 fs * 10 ^ (6 - length fs)\<rparr>)"
  proof -
    have d: "?t ! pos = CHR ''.''" "pos < length ?t" using P by (simp_all add: nth_append)
    show ?thesis
      using loop_frac[OF d(2) d(1), of "digits_value 0 fs" hs c] unfolding us
      by (simp add: pi)
  qed
  have 2: "?t = (P @ CHR ''.'' # fs) @ rest" by simp
  have 3: "length (P @ CHR ''.'' # fs) = pos + 1 + length fs" using P by simp
  show ?thesis
    unfolding 1 by (subst 2, subst loop_tail_tz[OF 3 _ rest]) simp_all
qed

lemma loop_prefix_dashed:
  assumes "is_digit h1" "is_digit h2" "is_digit m1" "is_digit m2" "is_digit s1" "is_digit s2"
    and "X = [] \<or> hd X \<noteq> CHR '':''"
  shows "parse_isotime_loop ([h1, h2, CHR '':'', m1, m2, CHR '':'', s1, s2] @ X) True 0 (- 1) c
         = parse_isotime_loop ([h1, h2, CHR '':'', m1, m2, CHR '':'', s1, s2] @ X) True 8 2
             (c\<lparr>hour := 10 * digit_val h1 + digit_val h2,
                minute := 10 * digit_val m1 + digit_val m2,
                second := 10 * digit_val s1 + digit_val s2\<rparr>)"
proof -
  let ?t = "[h1, h2, CHR '':'', m1, m2, CHR '':'', s1, s2] @ X"
  have x: "\<not> (8 < length ?t \<and> ?t ! 8 = CHR '':'')"
    using assms(7) by (cases X) auto
  have 1: "parse_isotime_loop ?t True 0 (- 1) c
           = parse_isotime_loop ?t True 3 0 (c\<lparr>hour := 10 * digit_val h1 + digit_val h2\<rparr>)"
    using assms(1,2)
    by (subst loop_field)
       (simp_all add: is_digit_not_tz py_slice_def py_int_2 set_component_def)
  have 2: "parse_isotime_loop ?t True 3 0 (c\<lparr>hour := 10 * digit_val h1 + digit_val h2\<rparr>)
           = parse_isotime_loop ?t True 6 1
               (c\<lparr>hour := 10 * digit_val h1 + digit_val h2,
                  minute := 10 * digit_val m1 + digit_val m2\<rparr>)"
    using assms(3,4)
    by (subst loop_field)
       (simp_all add: is_digit_not_tz py_slice_def py_int_2 set_component_def)
  have 3: "parse_isotime_loop ?t True 6 1
               (c\<lparr>hour := 10 * digit_val h1 + digit_val h2,
                  minute := 10 * digit_val m1 + digit_val m2\<rparr>)
           = parse_isotime_loop ?t True 8 2
               (c\<lparr>hour := 10 * digit_val h1 + digit_val h2,
                  minute := 10 * digit_val m1 + digit_val m2,
                  second := 10 * digit_val s1 + digit_val s2\<rparr>)"
    using assms(5,6) x
    by (subst loop_field)
       (auto simp: is_digit_not_tz py_slice_def py_int_2 set_component_def)
  show ?thesis unfolding 1 2 3 ..
qed

lemma loop_prefix_undashed:
  assumes "is_digit h1" "is_digit h2" "is_digit m1" "is_digit m2" "is_digit s1" "is_digit s2"
  shows "parse_isotime_loop ([h1, h2, m1, m2, s1, s2] @ X) False 0 (- 1) c
         = parse_isotime_loop ([h1, h2, m1, m2, s1, s2] @ X) False 6 2
             (c\<lparr>hour := 10 * digit_val h1 + digit_val h2,
                minute := 10 * digit_val m1 + digit_val m2,
                second := 10 * digit_val s1 + digit_val s2\<rparr>)"
proof -
  let ?t = "[h1, h2, m1, m2, s1, s2] @ X"
  have 1: "parse_isotime_loop ?t False 0 (- 1) c
           = parse_isotime_loop ?t False 2 0 (c\<lparr>hour := 10 * digit_val h1 + digit_val h2\<rparr>)"
    using assms(1,2)
    by (subst loop_field)
       (simp_all add: is_digit_not_tz py_slice_def py_int_2 set_component_def numeral_2_eq_2)
  have 2: "parse_isotime_loop ?t False 2 0 (c\<lparr>hour := 10 * digit_val h1 + digit_val h2\<rparr>)
           = parse_isotime_loop ?t False 4 1
               (c\<lparr>hour := 10 * digit_val h1 + digit_val h2,
                  minute := 10 * digit_val m1 + digit_val m2\<rparr>)"
    using assms(3,4)
    by (subst loop_field)
       (simp_all add: is_digit_not_tz py_slice_def py_int_2 set_component_def)
  have 3: "parse_isotime_loop ?t False 4 1
               (c\<lparr>hour := 10 * digit_val h1 + digit_val h2,
                  minute := 10 * digit_val m1 + digit_val m2\<rparr>)
           = parse_isotime_loop ?t False 6 2
               (c\<lparr>hour := 10 * digit_val h1 + digit_val h2,
                  minute := 10 * digit_val m1 + digit_val m2,
                  second := 10 * digit_val s1 + digit_val s2\<rparr>)"
    using assms(5,6)
    by (subst loop_field)
       (simp_all add: is_digit_not_tz py_slice_def py_int_2 set_component_def)
  show ?thesis unfolding 1 2 3 ..
qed

lemma digit_val_range: "is_digit c \<Longrightarrow> 0 \<le> digit_val c \<and> digit_val c \<le> 9"
  by (auto simp: is_digit_def digit_val_def Let_def)

lemma digits_value_bounds:
  assumes "list_all is_digit fs" "0 \<le> acc"
  shows "0 \<le> digits_value acc fs \<and> digits_value acc fs < (acc + 1) * 10 ^ length fs"
  using assms
proof (induction fs arbitrary: acc)
  case Nil
  then show ?case by simp
next
  case (Cons c cs)
  have c: "0 \<le> digit_val c" "digit_val c \<le> 9" using Cons.prems(1) digit_val_range by auto
  have a: "0 \<le> 10 * acc + digit_val c" using c Cons.prems(2) by simp
  have ih: "0 \<le> digits_value (10 * acc + digit_val c) cs"
    "digits_value (10 * acc + digit_val c) cs < (10 * acc + digit_val c + 1) * 10 ^ length cs"
    using Cons.IH[OF _ a] Cons.prems(1) by simp_all
  have "(10 * acc + digit_val c + 1) * 10 ^ length cs \<le> (10 * acc + 10) * 10 ^ length cs"
    using c by (intro mult_right_mono) simp_all
  also have "\<dots> = (acc + 1) * 10 ^ length (c # cs)" by (simp add: algebra_simps)
  finally have "digits_value (10 * acc + digit_val c) cs < (acc + 1) * 10 ^ length (c # cs)"
    using ih(2) by (rule less_le_trans[rotated])
  then show ?case using ih(1) by simp
qed

lemma microsecond_range:
  assumes "list_all is_digit fs" "length fs \<le> 6"
  shows "0 \<le> digits_value 0 fs * 10 ^ (6 - length fs)"
    "digits_value 0 fs * 10 ^ (6 - length fs) \<le> 999999"
proof -
  note b = digits_value_bounds[OF assms(1), of 0]
  show "0 \<le> digits_value 0 fs * 10 ^ (6 - length fs)" using b by simp
  have "digits_value 0 fs + 1 \<le> 10 ^ length fs" using b by simp
  then have "(digits_value 0 fs + 1) * 10 ^ (6 - length fs)
             \<le> 10 ^ length fs * (10::int) ^ (6 - length fs)"
    by (intro mult_right_mono) simp_all
  also have "\<dots> = 10 ^ 6" using assms(2) by (simp add: power_add[symmetric])
  finally have "digits_value 0 fs * 10 ^ (6 - length fs) + 10 ^ (6 - length fs) \<le> 1000000"
    by (simp add: algebra_simps)
  moreover have "(1::int) \<le> 10 ^ (6 - length fs)" by simp
  ultimately show "digits_value 0 fs * 10 ^ (6 - length fs) \<le> 999999" by linarith
qed

lemma loop_hms_frac:
  assumes dg: "is_digit h1" "is_digit h2" "is_digit m1" "is_digit m2" "is_digit s1" "is_digit s2"
    and P: "P \<in> {[h1, h2, CHR '':'', m1, m2, CHR '':'', s1, s2], [h1, h2, m1, m2, s1, s2]}"
    and fs: "list_all is_digit fs" "1 \<le> length fs" "length fs \<le> 6"
    and rest: "rest = [] \<or> is_tz_char (hd rest)"
    and t: "t = P @ CHR ''.'' # fs @ rest"
  shows "parse_isotime_loop t (3 \<le> length t \<and> t ! 2 = CHR '':'') 0 (- 1)
           \<lparr>hour = 0, minute = 0, second = 0, microsecond = 0, tz = None\<rparr>
         = (case (if rest = [] then Inr None
                  else case parse_tzstr rest True of Inl e \<Rightarrow> Inl e | Inr z \<Rightarrow> Inr (Some z)) of
              Inl e \<Rightarrow> Inl e
            | Inr tzv \<Rightarrow>
                Inr (\<lparr>hour = 10 * digit_val h1 + digit_val h2,
                      minute = 10 * digit_val m1 + digit_val m2,
                      second = 10 * digit_val s1 + digit_val s2,
                      microsecond = digits_value 0 fs * 10 ^ (6 - length fs),
                      tz = tzv\<rparr>, length t))"
proof -
  let ?X = "CHR ''.'' # fs @ rest"
  let ?c = "\<lparr>hour = 0, minute = 0, second = 0, microsecond = 0, tz = None\<rparr>"
  have X: "?X = [] \<or> hd ?X \<noteq> CHR '':''" by simp
  from P consider (d) "P = [h1, h2, CHR '':'', m1, m2, CHR '':'', s1, s2]"
    | (u) "P = [h1, h2, m1, m2, s1, s2]" by auto
  then show ?thesis
  proof cases
    case d
    have hs: "(3 \<le> length t \<and> t ! 2 = CHR '':'') = True" by (simp add: t d)
    have l: "length P = 8" by (simp add: d)
    show ?thesis
      unfolding hs unfolding t d loop_prefix_dashed[OF dg X]
      unfolding d[symmetric] loop_frac_tail[OF l fs rest]
      by (auto simp: l split: sum.splits)
  next
    case u
    have hs: "(3 \<le> length t \<and> t ! 2 = CHR '':'') = False"
      using dg(3) by (simp add: t u is_digit_neq)
    have l: "length P = 6" by (simp add: u)
    show ?thesis
      unfolding hs unfolding t u loop_prefix_undashed[OF dg]
      unfolding u[symmetric] loop_frac_tail[OF l fs rest]
      by (auto simp: l split: sum.splits)
  qed
qed

lemma loop_hms_plain:
  assumes dg: "is_digit h1" "is_digit h2" "is_digit m1" "is_digit m2" "is_digit s1" "is_digit s2"
    and P: "P \<in> {[h1, h2, CHR '':'', m1, m2, CHR '':'', s1, s2], [h1, h2, m1, m2, s1, s2]}"
    and rest: "rest = [] \<or> is_tz_char (hd rest)"
    and t: "t = P @ rest"
  shows "parse_isotime_loop t (3 \<le> length t \<and> t ! 2 = CHR '':'') 0 (- 1)
           \<lparr>hour = 0, minute = 0, second = 0, microsecond = 0, tz = None\<rparr>
         = (case (if rest = [] then Inr None
                  else case parse_tzstr rest True of Inl e \<Rightarrow> Inl e | Inr z \<Rightarrow> Inr (Some z)) of
              Inl e \<Rightarrow> Inl e
            | Inr tzv \<Rightarrow>
                Inr (\<lparr>hour = 10 * digit_val h1 + digit_val h2,
                      minute = 10 * digit_val m1 + digit_val m2,
                      second = 10 * digit_val s1 + digit_val s2,
                      microsecond = 0, tz = tzv\<rparr>, length t))"
proof -
  have X: "rest = [] \<or> hd rest \<noteq> CHR '':''"
    using rest by (auto simp: is_tz_char_def)
  from P consider (d) "P = [h1, h2, CHR '':'', m1, m2, CHR '':'', s1, s2]"
    | (u) "P = [h1, h2, m1, m2, s1, s2]" by auto
  then show ?thesis
  proof cases
    case d
    have hs: "(3 \<le> length t \<and> t ! 2 = CHR '':'') = True" by (simp add: t d)
    have l: "length P = 8" by (simp add: d)
    have tt: "parse_isotime_loop (P @ rest) hs 8 2 c =
           (if rest = [] then Inr (c, 8)
            else case parse_tzstr rest True of
                   Inl e \<Rightarrow> Inl e
                 | Inr z \<Rightarrow> Inr (c\<lparr>tz := Some z\<rparr>, 8 + length rest))" for hs c
      by (rule loop_tail_tz[OF l _ rest]) simp
    show ?thesis
      unfolding hs unfolding t d loop_prefix_dashed[OF dg X]
      unfolding d[symmetric] tt
      by (auto simp: l split: sum.splits)
  next
    case u
    have hs: "(3 \<le> length t \<and> t ! 2 = CHR '':'') = False"
      using dg(3) by (simp add: t u is_digit_neq)
    have l: "length P = 6" by (simp add: u)
    have tt: "parse_isotime_loop (P @ rest) hs 6 2 c =
           (if rest = [] then Inr (c, 6)
            else case parse_tzstr rest True of
                   Inl e \<Rightarrow> Inl e
                 | Inr z \<Rightarrow> Inr (c\<lparr>tz := Some z\<rparr>, 6 + length rest))" for hs c
      by (rule loop_tail_tz[OF l _ rest]) simp
    show ?thesis
      unfolding hs unfolding t u loop_prefix_undashed[OF dg]
      unfolding u[symmetric] tt
      by (auto simp: l split: sum.splits)
  qed
qed

lemma parse_isotime_24:
  assumes dg: "is_digit m1" "is_digit m2" "is_digit s1" "is_digit s2"
    and P: "P \<in> {[CHR ''2'', CHR ''4'', CHR '':'', m1, m2, CHR '':'', s1, s2],
                  [CHR ''2'', CHR ''4'', m1, m2, s1, s2]}"
  shows "parse_isotime P
         = (if 10 * digit_val m1 + digit_val m2 = 0 \<and> 10 * digit_val s1 + digit_val s2 = 0
            then Inr \<lparr>hour = 0, minute = 0, second = 0, microsecond = 0, tz = None\<rparr>
            else Inl ValueError)"
proof -
  have d: "is_digit CHR ''2''" "is_digit CHR ''4''" by (simp_all add: is_digit_def)
  have v: "10 * digit_val CHR ''2'' + digit_val CHR ''4'' = 24" by (simp add: digit_val_def)
  have l: "parse_isotime_loop P (3 \<le> length P \<and> P ! 2 = CHR '':'') 0 (- 1)
           \<lparr>hour = 0, minute = 0, second = 0, microsecond = 0, tz = None\<rparr>
         = Inr (\<lparr>hour = 24, minute = 10 * digit_val m1 + digit_val m2,
                  second = 10 * digit_val s1 + digit_val s2, microsecond = 0, tz = None\<rparr>,
                length P)"
    using loop_hms_plain[OF d dg P, where rest = "[]" and t = P] by (simp add: v)
  show ?thesis
    unfolding parse_isotime_def priv_parse_isotime_def Let_def l
    by (auto simp: ebind_simps time_new_def check_time_fields_def)
qed

text \<open>
  The time parser on \<^verbatim>\<open>hh:mm:ss\<close> and \<^verbatim>\<open>hhmmss\<close> with fields in range, then optionally a
  \<^verbatim>\<open>.\<close> and 1 to 6 digits, then nothing or a time zone token.
\<close>

lemma parse_isotime_hms_fraction:
  assumes dg: "is_digit h1" "is_digit h2" "is_digit m1" "is_digit m2" "is_digit s1" "is_digit s2"
    and P: "P \<in> {[h1, h2, CHR '':'', m1, m2, CHR '':'', s1, s2], [h1, h2, m1, m2, s1, s2]}"
    and fs: "list_all is_digit fs" "1 \<le> length fs" "length fs \<le> 6"
    and rest: "rest = [] \<or> is_tz_char (hd rest)"
    and rg: "10 * digit_val h1 + digit_val h2 \<le> 23" "10 * digit_val m1 + digit_val m2 \<le> 59"
      "10 * digit_val s1 + digit_val s2 \<le> 59"
  shows "parse_isotime (P @ CHR ''.'' # fs @ rest)
         = (case (if rest = [] then Inr None
                  else case parse_tzstr rest True of Inl e \<Rightarrow> Inl e | Inr z \<Rightarrow> Inr (Some z)) of
              Inl e \<Rightarrow> Inl e
            | Inr tzv \<Rightarrow>
                Inr \<lparr>hour = 10 * digit_val h1 + digit_val h2,
                     minute = 10 * digit_val m1 + digit_val m2,
                     second = 10 * digit_val s1 + digit_val s2,
                     microsecond = digits_value 0 fs * 10 ^ (6 - length fs),
                     tz = tzv\<rparr>)
       \<and> parse_isotime (P @ rest)
         = (case (if rest = [] then Inr None
                  else case parse_tzstr rest True of Inl e \<Rightarrow> Inl e | Inr z \<Rightarrow> Inr (Some z)) of
              Inl e \<Rightarrow> Inl e
            | Inr tzv \<Rightarrow>
                Inr \<lparr>hour = 10 * digit_val h1 + digit_val h2,
                     minute = 10 * digit_val m1 + digit_val m2,
                     second = 10 * digit_val s1 + digit_val s2,
                     microsecond = 0, tz = tzv\<rparr>)"
proof -
  have nn: "0 \<le> 10 * digit_val h1 + digit_val h2" "0 \<le> 10 * digit_val m1 + digit_val m2"
    "0 \<le> 10 * digit_val s1 + digit_val s2"
    using dg digit_val_range by (simp_all add: add_nonneg_nonneg)
  note us = microsecond_range[OF fs(1,3)]
  have 1: "parse_isotime (P @ CHR ''.'' # fs @ rest)
         = (case (if rest = [] then Inr None
                  else case parse_tzstr rest True of Inl e \<Rightarrow> Inl e | Inr z \<Rightarrow> Inr (Some z)) of
              Inl e \<Rightarrow> Inl e
            | Inr tzv \<Rightarrow>
                Inr \<lparr>hour = 10 * digit_val h1 + digit_val h2,
                     minute = 10 * digit_val m1 + digit_val m2,
                     second = 10 * digit_val s1 + digit_val s2,
                     microsecond = digits_value 0 fs * 10 ^ (6 - length fs),
                     tz = tzv\<rparr>)"
    unfolding parse_isotime_def priv_parse_isotime_def Let_def
      loop_hms_frac[OF dg P fs rest refl]
    using rg nn us
    by (auto simp: ebind_simps time_new_def check_time_fields_def split: sum.splits)
  have 2: "parse_isotime (P @ rest)
         = (case (if rest = [] then Inr None
                  else case parse_tzstr rest True of Inl e \<Rightarrow> Inl e | Inr z \<Rightarrow> Inr (Some z)) of
              Inl e \<Rightarrow> Inl e
            | Inr tzv \<Rightarrow>
                Inr \<lparr>hour = 10 * digit_val h1 + digit_val h2,
                     minute = 10 * digit_val m1 + digit_val m2,
                     second = 10 * digit_val s1 + digit_val s2,
                     microsecond = 0, tz = tzv\<rparr>)"
    unfolding parse_isotime_def priv_parse_isotime_def Let_def
      loop_hms_plain[OF dg P rest refl]
    using rg nn
    by (auto simp: ebind_simps time_new_def check_time_fields_def split: sum.splits)
  show ?thesis using 1 2 by (rule conjI)
qed

section \<open>The claims\<close>

text \<open>
  C1. The claim: \<^verbatim>\<open>parse_isodate\<close> fails whenever characters of its argument remain after
  the date components, for instance on \<^verbatim>\<open>"2014-04-11x"\<close>. The code unpacks the end position
  returned by \<^verbatim>\<open>_parse_isodate\<close> and never looks at it: on \<^verbatim>\<open>"2014-04-11x"\<close> the date
  parser stops at position 10 of 11 and \<^verbatim>\<open>parse_isodate\<close> returns the date 2014-04-11.
  The sibling entry points do reject left-over input (\<^verbatim>\<open>isoparse\<close>, \<^verbatim>\<open>_parse_isotime\<close>).
\<close>

theorem parse_isodate_keeps_trailing_input:
  "priv_parse_isodate self ''2014-04-11x'' = Inr ((2014, 4, 11), 10)
   \<and> length ''2014-04-11x'' = 11
   \<and> parse_isodate self ''2014-04-11x'' = Inr \<lparr>year = 2014, month = 4, day = 11\<rparr>
   \<and> isoparse \<lparr>sep = CHR ''T'', default_year = 2014\<rparr> ''2014-04-11x'' False = Inl ValueError
   \<and> parse_isotime ''10:49:41x'' = Inl ValueError"
  by code_simp

text \<open>
  C2. The claim: in the week-date form with a day, the dash before the day is present if
  and only if the dash after the year is, and both mixed forms are errors. The code checks
  one direction only: a dash before the day without a dash after the year raises
  ValueError (\<^verbatim>\<open>"2004W01-1"\<close>), but a dash after the year without a dash before the day is
  accepted (\<^verbatim>\<open>"2004-W011"\<close> parses to the Monday of week 1 of 2004, as the two consistent
  forms do).
\<close>

theorem week_date_mixed_dashes:
  "parse_isodate self ''2004-W011'' = Inr \<lparr>year = 2003, month = 12, day = 29\<rparr>
   \<and> parse_isodate self ''2004W01-1'' = Inl ValueError
   \<and> parse_isodate self ''2004-W01-1'' = Inr \<lparr>year = 2003, month = 12, day = 29\<rparr>
   \<and> parse_isodate self ''2004W011'' = Inr \<lparr>year = 2003, month = 12, day = 29\<rparr>"
  by code_simp

text \<open>
  C3. The claim: every public operation returns a value or raises the parse error
  (ValueError), and nothing else escapes. The uncommon date grammar reads
  \<^verbatim>\<open>dt_str[4]\<close>, \<^verbatim>\<open>dt_str[pos]\<close> without a length check, so short inputs raise IndexError,
  through \<^verbatim>\<open>parse_isodate\<close> and through \<^verbatim>\<open>isoparse\<close>; and week 53 of the year 9999 leaves
  the range of \<^verbatim>\<open>date\<close>, which raises OverflowError.
\<close>

theorem uncommon_date_escaping_errors:
  "parse_isodate self ''--02'' = Inl IndexError
   \<and> isoparse self ''--02'' False = Inl IndexError
   \<and> parse_isodate self ''2004-'' = Inl IndexError
   \<and> parse_isodate self ''2004-W01-'' = Inl IndexError
   \<and> parse_isodate self ''9999-W53-7'' = Inl OverflowError"
  by code_simp

text \<open>
  C4. For every date \<open>dt\<close> that \<^verbatim>\<open>date\<close> can hold, with ISO calendar triple
  \<open>(iy, iw, iwd) = isocalendar dt\<close>: \<^verbatim>\<open>_calculate_weekdate(iy, iw, iwd)\<close> returns \<open>dt\<close>, and
  parsing the string \<^verbatim>\<open>YYYY-Www-D\<close> made of the four-digit ISO year, the two-digit ISO week
  and the ISO weekday returns \<open>dt\<close>.
\<close>

theorem week_date_round_trip:
  assumes "check_date_fields (year dt) (month dt) (day dt)"
    and "isocalendar dt = (iy, iw, iwd)"
  shows "priv_calculate_weekdate iy iw iwd = Inr dt
         \<and> parse_isodate self (zfill4 iy @ ''-W'' @ zfill2 iw @ ''-'' @ [digit_char iwd]) = Inr dt"
proof -
  note p = isocalendar_inverse[OF assms]
  have y: "0 \<le> iy" "iy \<le> 9999" and w: "0 \<le> iw" "iw \<le> 99" and d: "0 \<le> iwd" "iwd \<le> 9"
    using p by simp_all
  note c = calculate_weekdate_isocalendar[OF assms]
  note dg = zfill4_is_digit[OF y] zfill2_digits[OF w] is_digit_digit_char[OF d]
  have s: "zfill4 iy @ ''-W'' @ zfill2 iw @ ''-'' @ [digit_char iwd]
           = [digit_char (iy div 1000), digit_char (iy div 100 mod 10),
              digit_char (iy div 10 mod 10), digit_char (iy mod 10), CHR ''-'', CHR ''W'',
              digit_char (iw div 10), digit_char (iw mod 10), CHR ''-'', digit_char iwd]"
    by (simp add: zfill4_def zfill2_def)
  have 1: "priv_parse_isodate_common (zfill4 iy @ ''-W'' @ zfill2 iw @ ''-'' @ [digit_char iwd])
           = Inl ValueError"
    unfolding s by (rule common_week_fails[OF dg(1-5)])
  have 2: "priv_parse_isodate_uncommon self
             (zfill4 iy @ ''-W'' @ zfill2 iw @ ''-'' @ [digit_char iwd])
           = Inr ((year dt, month dt, day dt), 10)"
    unfolding s uncommon_week_dashed[OF dg] zfill4_val[OF y] zfill2_val[OF w]
      digit_val_digit_char[OF d] c
    by (simp add: ebind_simps)
  have 3: "date_new (year dt, month dt, day dt) = Inr dt"
    using assms(1) by (simp add: date_new_def)
  have "parse_isodate self (zfill4 iy @ ''-W'' @ zfill2 iw @ ''-'' @ [digit_char iwd]) = Inr dt"
    unfolding parse_isodate_def priv_parse_isodate_def 1 2 by (simp add: 3 ebind_simps)
  with c show ?thesis by simp
qed

theorem week_date_round_trip_witness:
  "check_date_fields 2008 12 29
   \<and> isocalendar \<lparr>year = 2008, month = 12, day = 29\<rparr> = (2009, 1, 1)
   \<and> priv_calculate_weekdate 2009 1 1 = Inr \<lparr>year = 2008, month = 12, day = 29\<rparr>
   \<and> parse_isodate \<lparr>sep = CHR ''T'', default_year = 2017\<rparr> ''2009-W01-1''
       = Inr \<lparr>year = 2008, month = 12, day = 29\<rparr>"
proof -
  have v: "check_date_fields (year \<lparr>year = 2008, month = 12, day = 29\<rparr>)
             (month \<lparr>year = 2008, month = 12, day = 29\<rparr>)
             (day \<lparr>year = 2008, month = 12, day = 29\<rparr>)" by code_simp
  have i: "isocalendar \<lparr>year = 2008, month = 12, day = 29\<rparr> = (2009, 1, 1)" by code_simp
  have z: "zfill4 2009 @ ''-W'' @ zfill2 1 @ ''-'' @ [digit_char 1] = ''2009-W01-1''"
    by code_simp
  show ?thesis
    using v i week_date_round_trip[OF v i, of "\<lparr>sep = CHR ''T'', default_year = 2017\<rparr>"]
    unfolding z by simp
qed

text \<open>
  C5. For the year-less forms \<^verbatim>\<open>--MM-DD\<close> and \<^verbatim>\<open>--MMDD\<close> the date parser returns the month
  and day with the configured default year, except for February 29, where the year is the
  default year minus its remainder modulo 4, and 4 less than that if this candidate is
  divisible by 100 but not by 400. That year is a leap year, is not after the default
  year, and no year after it up to the default year is a leap year. \<^verbatim>\<open>parse_isodate\<close>
  builds the date from these components: default year 2004 gives 2004-02-29, default
  year 2003 gives 2000-02-29. For the default years 1, 2 and 3 the rule gives the year 0,
  a leap year of the proleptic calendar that \<^verbatim>\<open>date\<close> does not accept, so that
  \<^verbatim>\<open>parse_isodate\<close> raises ValueError there.
\<close>

theorem yearless_date_leap_rule:
  assumes "is_digit m1" "is_digit m2" "is_digit d1" "is_digit d2"
  shows "let M = 10 * digit_val m1 + digit_val m2;
             D = 10 * digit_val d1 + digit_val d2;
             Y = (if M = 2 \<and> D = 29 then spec_leap_year_upto (default_year self)
                  else default_year self)
         in priv_parse_isodate self [CHR ''-'', CHR ''-'', m1, m2, CHR ''-'', d1, d2]
              = Inr ((Y, M, D), 7)
            \<and> priv_parse_isodate self [CHR ''-'', CHR ''-'', m1, m2, d1, d2] = Inr ((Y, M, D), 6)
            \<and> parse_isodate self [CHR ''-'', CHR ''-'', m1, m2, CHR ''-'', d1, d2]
              = date_new (Y, M, D)
            \<and> parse_isodate self [CHR ''-'', CHR ''-'', m1, m2, d1, d2] = date_new (Y, M, D)
            \<and> is_leap (spec_leap_year_upto (default_year self))
            \<and> spec_leap_year_upto (default_year self) \<le> default_year self
            \<and> (\<forall>z. spec_leap_year_upto (default_year self) < z \<and> z \<le> default_year self
                     \<longrightarrow> \<not> is_leap z)"
proof -
  have 1: "priv_parse_isodate self [CHR ''-'', CHR ''-'', m1, m2, CHR ''-'', d1, d2]
           = priv_parse_isodate_uncommon self [CHR ''-'', CHR ''-'', m1, m2, CHR ''-'', d1, d2]"
    by (simp add: priv_parse_isodate_def common_yearless_fails[OF assms(2)])
  have 2: "priv_parse_isodate self [CHR ''-'', CHR ''-'', m1, m2, d1, d2]
           = priv_parse_isodate_uncommon self [CHR ''-'', CHR ''-'', m1, m2, d1, d2]"
    by (simp add: priv_parse_isodate_def common_yearless_fails[OF assms(2)])
  show ?thesis
    unfolding Let_def parse_isodate_def 1 2 uncommon_yearless[OF assms]
    using spec_leap_year_upto_props[of "default_year self"]
    by (simp add: ebind_simps)
qed

theorem yearless_date_leap_rule_witness:
  "parse_isodate \<lparr>sep = CHR ''T'', default_year = 2004\<rparr> ''--02-29''
     = Inr \<lparr>year = 2004, month = 2, day = 29\<rparr>
   \<and> parse_isodate \<lparr>sep = CHR ''T'', default_year = 2003\<rparr> ''--02-29''
     = Inr \<lparr>year = 2000, month = 2, day = 29\<rparr>
   \<and> parse_isodate \<lparr>sep = CHR ''T'', default_year = 2003\<rparr> ''--0229''
     = Inr \<lparr>year = 2000, month = 2, day = 29\<rparr>
   \<and> parse_isodate \<lparr>sep = CHR ''T'', default_year = 2003\<rparr> ''--02-28''
     = Inr \<lparr>year = 2003, month = 2, day = 28\<rparr>
   \<and> spec_leap_year_upto 2003 = 2000 \<and> is_leap 2000
   \<and> \<not> is_leap 2001 \<and> \<not> is_leap 2002 \<and> \<not> is_leap 2003
   \<and> spec_leap_year_upto 1903 = 1896
   \<and> parse_isodate \<lparr>sep = CHR ''T'', default_year = 3\<rparr> ''--02-29'' = Inl ValueError"
proof -
  have e: "parse_isodate \<lparr>sep = CHR ''T'', default_year = 3\<rparr> ''--02-29'' = Inl ValueError"
    by code_simp
  have d: "is_digit CHR ''0''" "is_digit CHR ''2''" "is_digit CHR ''9''" "is_digit CHR ''8''"
    by (simp_all add: is_digit_def)
  have v: "digit_val CHR ''0'' = 0" "digit_val CHR ''2'' = 2" "digit_val CHR ''9'' = 9"
    "digit_val CHR ''8'' = 8"
    by (simp_all add: digit_val_def)
  have s: "spec_leap_year_upto 2003 = 2000" "spec_leap_year_upto 2004 = 2004"
    "spec_leap_year_upto 1903 = 1896"
    by (simp_all add: spec_leap_year_upto_def)
  have n: "date_new (2000, 2, 29) = Inr \<lparr>year = 2000, month = 2, day = 29\<rparr>"
    "date_new (2004, 2, 29) = Inr \<lparr>year = 2004, month = 2, day = 29\<rparr>"
    "date_new (2003, 2, 28) = Inr \<lparr>year = 2003, month = 2, day = 28\<rparr>"
    by code_simp+
  note t = yearless_date_leap_rule[of "CHR ''0''" "CHR ''2''" "CHR ''2''" _
      "\<lparr>sep = CHR ''T'', default_year = 2003\<rparr>", unfolded Let_def, simplified d v s n, simplified]
  note t4 = yearless_date_leap_rule[of "CHR ''0''" "CHR ''2''" "CHR ''2''" "CHR ''9''"
      "\<lparr>sep = CHR ''T'', default_year = 2004\<rparr>", unfolded Let_def, simplified d v s n, simplified]
  show ?thesis
    using t[of "CHR ''9''"] t[of "CHR ''8''"] t4 e
    by (simp add: d v s n)
qed

text \<open>
  C6. Let the loop of the time parser end with components \<open>c\<close> whose hour is 24. If the
  minute, the second or the microsecond of \<open>c\<close> is not 0, parsing fails with ValueError. If
  all three are 0 and the input is consumed, parsing succeeds with the hour set to 0 and
  the other components unchanged; and a combined string whose date portion parses to
  \<open>(y, m, d)\<close> and whose time portion is this string parses to the date \<open>(y, m, d)\<close> itself,
  at 00:00:00: the date is not moved to the next day. (\<open>parse_isotime_24\<close> above gives the
  same for every string \<^verbatim>\<open>24:MM:SS\<close> and \<^verbatim>\<open>24MMSS\<close>.)
\<close>

theorem midnight_rule:
  assumes loop: "parse_isotime_loop timestr (3 \<le> length timestr \<and> timestr ! 2 = CHR '':'') 0 (- 1)
             \<lparr>hour = 0, minute = 0, second = 0, microsecond = 0, tz = None\<rparr> = Inr (c, pos)"
    and h24: "hour c = 24"
  shows "(minute c \<noteq> 0 \<or> second c \<noteq> 0 \<or> microsecond c \<noteq> 0 \<longrightarrow>
            priv_parse_isotime timestr = Inl ValueError \<and> parse_isotime timestr = Inl ValueError)
       \<and> (minute c = 0 \<and> second c = 0 \<and> microsecond c = 0 \<and> length timestr \<le> pos \<longrightarrow>
            priv_parse_isotime timestr = Inr (c\<lparr>hour := 0\<rparr>)
            \<and> parse_isotime timestr = Inr (c\<lparr>hour := 0\<rparr>)
            \<and> ((if common_only then priv_parse_isodate_common dt_str
                 else priv_parse_isodate self dt_str) = Inr ((y, m, d), p)
                \<and> p < length dt_str \<and> dt_str ! p = sep self \<and> drop (p + 1) dt_str = timestr
                \<and> check_date_fields y m d \<longrightarrow>
                isoparse self dt_str common_only
                  = Inr \<lparr>year = y, month = m, day = d, dhour = 0, dminute = 0, dsecond = 0,
                         dmicrosecond = 0, dtz = tz c\<rparr>))"
proof (intro conjI impI)
  assume nz: "minute c \<noteq> 0 \<or> second c \<noteq> 0 \<or> microsecond c \<noteq> 0"
  show 1: "priv_parse_isotime timestr = Inl ValueError"
    unfolding priv_parse_isotime_def Let_def loop using h24 nz by (auto simp: ebind_simps)
  show "parse_isotime timestr = Inl ValueError"
    unfolding parse_isotime_def 1 by (simp add: ebind_simps)
next
  assume z: "minute c = 0 \<and> second c = 0 \<and> microsecond c = 0 \<and> length timestr \<le> pos"
  show 2: "priv_parse_isotime timestr = Inr (c\<lparr>hour := 0\<rparr>)"
    unfolding priv_parse_isotime_def Let_def loop using h24 z by (auto simp: ebind_simps)
  show "parse_isotime timestr = Inr (c\<lparr>hour := 0\<rparr>)"
    unfolding parse_isotime_def 2 using z
    by (simp add: ebind_simps time_new_def check_time_fields_def)
  assume a: "(if common_only then priv_parse_isodate_common dt_str
              else priv_parse_isodate self dt_str) = Inr ((y, m, d), p)
             \<and> p < length dt_str \<and> dt_str ! p = sep self \<and> drop (p + 1) dt_str = timestr
             \<and> check_date_fields y m d"
  show "isoparse self dt_str common_only
          = Inr \<lparr>year = y, month = m, day = d, dhour = 0, dminute = 0, dsecond = 0,
                 dmicrosecond = 0, dtz = tz c\<rparr>"
    unfolding isoparse_def using a 2 z
    by (simp add: ebind_simps datetime_new_def check_time_fields_def)
qed

theorem midnight_rule_witness:
  "parse_isotime ''24:00:00''
     = Inr \<lparr>hour = 0, minute = 0, second = 0, microsecond = 0, tz = None\<rparr>
   \<and> parse_isotime ''24:30:00'' = Inl ValueError
   \<and> parse_isotime ''24:00:00.5'' = Inl ValueError
   \<and> isoparse \<lparr>sep = CHR ''T'', default_year = 2017\<rparr> ''2014-04-10T24:00:00'' False
     = Inr \<lparr>year = 2014, month = 4, day = 10, dhour = 0, dminute = 0, dsecond = 0,
            dmicrosecond = 0, dtz = None\<rparr>"
proof -
  let ?init = "\<lparr>hour = 0, minute = 0, second = 0, microsecond = 0, tz = None\<rparr>"
  let ?self = "\<lparr>sep = CHR ''T'', default_year = 2017\<rparr>"
  have l1: "parse_isotime_loop ''24:00:00'' (3 \<le> length ''24:00:00'' \<and> ''24:00:00'' ! 2 = CHR '':'')
              0 (- 1) ?init
            = Inr (\<lparr>hour = 24, minute = 0, second = 0, microsecond = 0, tz = None\<rparr>, 8)"
    by code_simp
  have l2: "parse_isotime_loop ''24:30:00'' (3 \<le> length ''24:30:00'' \<and> ''24:30:00'' ! 2 = CHR '':'')
              0 (- 1) ?init
            = Inr (\<lparr>hour = 24, minute = 30, second = 0, microsecond = 0, tz = None\<rparr>, 8)"
    by code_simp
  have l3: "parse_isotime_loop ''24:00:00.5''
              (3 \<le> length ''24:00:00.5'' \<and> ''24:00:00.5'' ! 2 = CHR '':'') 0 (- 1) ?init
            = Inr (\<lparr>hour = 24, minute = 0, second = 0, microsecond = 500000, tz = None\<rparr>, 10)"
    by code_simp
  have dp: "priv_parse_isodate ?self ''2014-04-10T24:00:00'' = Inr ((2014, 4, 10), 10)"
    by code_simp
  have cd: "check_date_fields 2014 4 10" by code_simp
  have a: "parse_isotime ''24:00:00'' = Inr ?init
           \<and> isoparse ?self ''2014-04-10T24:00:00'' False
             = Inr \<lparr>year = 2014, month = 4, day = 10, dhour = 0, dminute = 0, dsecond = 0,
                    dmicrosecond = 0, dtz = None\<rparr>"
    using midnight_rule[OF l1, of False "''2014-04-10T24:00:00''" ?self 2014 4 10 10] dp cd
    by simp
  have b: "parse_isotime ''24:30:00'' = Inl ValueError"
    using midnight_rule[OF l2] by simp
  have c: "parse_isotime ''24:00:00.5'' = Inl ValueError"
    using midnight_rule[OF l3] by simp
  show ?thesis using a b c by simp
qed

text \<open>
  C7. For a signed offset token, sign then two hour digits then optionally two minute
  digits with or without a colon: if \<open>zero_as_utc\<close> is set and hours and minutes are both
  0 the result is the UTC marker; otherwise more than 59 minutes or more than 23 hours is
  a ValueError, and else the result is the fixed offset of sign times (hours times 60 plus
  minutes) minutes. \<^verbatim>\<open>"+00:00"\<close> gives UTC with \<open>zero_as_utc\<close> and a fixed offset of 0
  minutes, a different value, without.
\<close>

theorem parse_tzstr_signed_offsets:
  assumes "sg = CHR ''+'' \<or> sg = CHR ''-''"
    and "is_digit h1" "is_digit h2" "is_digit m1" "is_digit m2"
  shows "parse_tzstr [sg, h1, h2, CHR '':'', m1, m2] zero_as_utc
           = spec_tz_result zero_as_utc (if sg = CHR ''-'' then - 1 else 1)
               (10 * digit_val h1 + digit_val h2) (10 * digit_val m1 + digit_val m2)
       \<and> parse_tzstr [sg, h1, h2, m1, m2] zero_as_utc
           = spec_tz_result zero_as_utc (if sg = CHR ''-'' then - 1 else 1)
               (10 * digit_val h1 + digit_val h2) (10 * digit_val m1 + digit_val m2)
       \<and> parse_tzstr [sg, h1, h2] zero_as_utc
           = spec_tz_result zero_as_utc (if sg = CHR ''-'' then - 1 else 1)
               (10 * digit_val h1 + digit_val h2) 0"
  using assms
  by (auto simp: parse_tzstr_def py_slice_def ebind_simps py_int_2 is_digit_neq
        spec_tz_result_def)

theorem parse_tzstr_signed_offsets_witness:
  "parse_tzstr ''+00:00'' True = Inr tzutc
   \<and> parse_tzstr ''+00:00'' False = Inr (tzoffset 0)
   \<and> tzoffset 0 \<noteq> tzutc
   \<and> parse_tzstr ''-03:00'' True = Inr (tzoffset (- 180))
   \<and> parse_tzstr ''+0530'' True = Inr (tzoffset 330)
   \<and> parse_tzstr ''+24:00'' True = Inl ValueError
   \<and> parse_tzstr ''+23:60'' True = Inl ValueError"
proof -
  have d: "is_digit CHR ''0''" "is_digit CHR ''3''" "is_digit CHR ''5''" "is_digit CHR ''2''"
    "is_digit CHR ''4''" "is_digit CHR ''6''"
    by (simp_all add: is_digit_def)
  have v: "digit_val CHR ''0'' = 0" "digit_val CHR ''3'' = 3" "digit_val CHR ''5'' = 5"
    "digit_val CHR ''2'' = 2" "digit_val CHR ''4'' = 4" "digit_val CHR ''6'' = 6"
    by (simp_all add: digit_val_def)
  show ?thesis
    using parse_tzstr_signed_offsets[of "CHR ''+''" "CHR ''0''" "CHR ''0''" "CHR ''0''" "CHR ''0''" True]
      parse_tzstr_signed_offsets[of "CHR ''+''" "CHR ''0''" "CHR ''0''" "CHR ''0''" "CHR ''0''" False]
      parse_tzstr_signed_offsets[of "CHR ''-''" "CHR ''0''" "CHR ''3''" "CHR ''0''" "CHR ''0''" True]
      parse_tzstr_signed_offsets[of "CHR ''+''" "CHR ''0''" "CHR ''5''" "CHR ''3''" "CHR ''0''" True]
      parse_tzstr_signed_offsets[of "CHR ''+''" "CHR ''2''" "CHR ''4''" "CHR ''0''" "CHR ''0''" True]
      parse_tzstr_signed_offsets[of "CHR ''+''" "CHR ''2''" "CHR ''3''" "CHR ''6''" "CHR ''0''" True]
    by (simp add: d v spec_tz_result_def)
qed

text \<open>
  C8. For every year from 1 to 9999 and every month and day valid for it, the dashed
  rendering \<^verbatim>\<open>YYYY-MM-DD\<close> and the undashed rendering \<^verbatim>\<open>YYYYMMDD\<close> both parse, with
  \<^verbatim>\<open>parse_isodate\<close>, to exactly that year, month and day.
\<close>

theorem parse_isodate_common_formats:
  assumes "check_date_fields y m d"
  shows "parse_isodate self (zfill4 y @ ''-'' @ zfill2 m @ ''-'' @ zfill2 d)
           = Inr \<lparr>year = y, month = m, day = d\<rparr>
         \<and> parse_isodate self (zfill4 y @ zfill2 m @ zfill2 d)
           = Inr \<lparr>year = y, month = m, day = d\<rparr>"
proof -
  have y: "0 \<le> y" "y \<le> 9999" and m: "0 \<le> m" "m \<le> 99" and m': "1 \<le> m" "m \<le> 12"
    and d1: "1 \<le> d" "d \<le> days_in_month y m"
    using assms by (simp_all add: check_date_fields_def MINYEAR_def MAXYEAR_def)
  have d: "0 \<le> d" "d \<le> 99" using d1 dim_le_31[OF m', of y] by simp_all
  note dg = zfill4_is_digit[OF y] zfill2_digits[OF m] zfill2_digits[OF d]
  have 1: "priv_parse_isodate_common (zfill4 y @ ''-'' @ zfill2 m @ ''-'' @ zfill2 d)
           = Inr ((y, m, d), 10)"
    unfolding zfill4_def zfill2_def using common_dashed[OF dg]
    by (simp add: zfill4_val[OF y] zfill2_val[OF m] zfill2_val[OF d])
  have 2: "priv_parse_isodate_common (zfill4 y @ zfill2 m @ zfill2 d) = Inr ((y, m, d), 8)"
    unfolding zfill4_def zfill2_def using common_undashed[OF dg]
    by (simp add: zfill4_val[OF y] zfill2_val[OF m] zfill2_val[OF d])
  have 3: "date_new (y, m, d) = Inr \<lparr>year = y, month = m, day = d\<rparr>"
    using assms by (simp add: date_new_def)
  show ?thesis
    unfolding parse_isodate_def priv_parse_isodate_def 1 2 by (simp add: 3 ebind_simps)
qed

theorem parse_isodate_common_formats_witness:
  "check_date_fields 2003 9 25
   \<and> parse_isodate \<lparr>sep = CHR ''T'', default_year = 2017\<rparr> ''2003-09-25''
       = Inr \<lparr>year = 2003, month = 9, day = 25\<rparr>
   \<and> parse_isodate \<lparr>sep = CHR ''T'', default_year = 2017\<rparr> ''20030925''
       = Inr \<lparr>year = 2003, month = 9, day = 25\<rparr>"
proof -
  have v: "check_date_fields 2003 9 25" by code_simp
  have z: "zfill4 2003 = ''2003''" "zfill2 9 = ''09''" "zfill2 25 = ''25''" by code_simp+
  show ?thesis
    using v parse_isodate_common_formats[OF v, of "\<lparr>sep = CHR ''T'', default_year = 2017\<rparr>"]
    unfolding z by simp
qed

text \<open>
  C9. The claim: when the character after the seconds is \<^verbatim>\<open>.\<close>, the 1 to 6 digits that
  follow are the fractional-second string, of length \<open>n\<close>, and the microsecond component is
  their value times 10 to the power \<open>6 - n\<close>; when the character after the seconds is not
  \<^verbatim>\<open>.\<close>, the microsecond component is 0. The code cuts the six characters after the
  \<^verbatim>\<open>.\<close> at the first of \<^verbatim>\<open>-\<close>, \<^verbatim>\<open>+\<close>, \<^verbatim>\<open>Z\<close>, converts the piece with \<^verbatim>\<open>int\<close> and scales by
  the length of the piece, not by the number of digits: after \<^verbatim>\<open>"12:30:45.5"\<close> a trailing
  space is accepted and divides the result by ten (50000 microseconds, where the digit
  \<^verbatim>\<open>5\<close> alone gives 500000), and \<^verbatim>\<open>"12:30:45.1_2"\<close> gives 12000. A \<^verbatim>\<open>:\<close> after the seconds is
  skipped, so that \<^verbatim>\<open>"12:30:45:.5"\<close> has 500000 microseconds although the character after
  the seconds is not \<^verbatim>\<open>.\<close>. On digits followed by the end of the string or by a time zone
  the code does what the claim says (\<open>parse_isotime_hms_fraction\<close> above).
\<close>

theorem fraction_scaled_by_piece_length:
  "parse_isotime ''12:30:45.5''
     = Inr \<lparr>hour = 12, minute = 30, second = 45, microsecond = 500000, tz = None\<rparr>
   \<and> microsecond_end_split (py_slice ''12:30:45.5 '' 9 15) = ''5 ''
   \<and> parse_isotime ''12:30:45.5 ''
     = Inr \<lparr>hour = 12, minute = 30, second = 45, microsecond = 50000, tz = None\<rparr>
   \<and> parse_isotime ''12:30:45.1_2''
     = Inr \<lparr>hour = 12, minute = 30, second = 45, microsecond = 12000, tz = None\<rparr>
   \<and> parse_isotime ''12:30:45:.5''
     = Inr \<lparr>hour = 12, minute = 30, second = 45, microsecond = 500000, tz = None\<rparr>"
  by code_simp

text \<open>
  C10, as amended. The claim: week 53 is accepted for every ISO year, and in a year of 52
  weeks it yields a date in week 1 of the following ISO year. That holds for the years 1
  to 9998: week 53 with a weekday from 1 to 7 always returns a date, which belongs to week
  1 of the next ISO year when the year has 52 weeks and to week 53 of the year itself
  otherwise.
\<close>

theorem week_53_accepted:
  assumes y: "1 \<le> y" "y \<le> 9998" and d: "1 \<le> d" "d \<le> 7"
  shows "\<exists>dt. priv_calculate_weekdate y 53 d = Inr dt
           \<and> check_date_fields (year dt) (month dt) (day dt)
           \<and> isocalendar dt = (if iso_weeks_in_year y = 52 then (y + 1, 1, d) else (y, 53, d))"
proof -
  define B where "B = isoweek1monday y"
  define C where "C = isoweek1monday (y + 1)"
  define E where "E = isoweek1monday (y + 2)"
  define n where "n = B + ((53 - 1) * 7 + (d - 1))"
  have BC: "C - B = 364 \<or> C - B = 371"
    using isoweek1monday_step[of y] by (simp add: B_def C_def)
  have CE: "E - C = 364 \<or> E - C = 371"
    using isoweek1monday_step[of "y + 1"] by (simp add: E_def C_def add.assoc)
  have B1: "1 \<le> B" using isoweek1monday_pos[OF y(1)] by (simp add: B_def)
  have "B \<le> days_before_year 9998 + 4"
    using isoweek1monday_bounds(2)[of y] dby_mono[OF y(2)] by (simp add: B_def)
  moreover have "days_before_year 9998 + 4 + 370 \<le> MAXORDINAL"
    by (simp add: days_before_year_def MAXORDINAL_def)
  ultimately have nM: "n \<le> MAXORDINAL" using d by (simp add: n_def)
  have n1: "1 \<le> n" using B1 d by (simp add: n_def)
  have c: "priv_calculate_weekdate y 53 d = Inr (fromordinal n)"
    unfolding n_def B_def
    by (rule calculate_weekdate_ord) (use y d nM in \<open>simp_all add: n_def B_def\<close>)
  have v: "check_date_fields (year (fromordinal n)) (month (fromordinal n)) (day (fromordinal n))"
    by (rule fromordinal_valid[OF n1 nM])
  have w: "iso_weeks_in_year y = (C - B) div 7"
    by (simp add: iso_weeks_in_year_step B_def C_def)
  have i: "isocalendar (fromordinal n)
           = (if iso_weeks_in_year y = 52 then (y + 1, 1, d) else (y, 53, d))"
  proof (cases "C - B = 364")
    case True
    then have n': "n = isoweek1monday (y + 1) + (d - 1)" by (simp add: n_def C_def)
    have "isocalendar (fromordinal n) = (y + 1, (d - 1) div 7 + 1, (d - 1) mod 7 + 1)"
      unfolding n'
      by (rule isocalendar_fromordinal) (use y d CE in \<open>auto simp: C_def E_def add.assoc\<close>)
    then show ?thesis using True w d by simp
  next
    case False
    with BC have a: "C - B = 371" by simp
    have n': "n = isoweek1monday y + (364 + (d - 1))" by (simp add: n_def B_def)
    have "isocalendar (fromordinal n) = (y, (364 + (d - 1)) div 7 + 1, (364 + (d - 1)) mod 7 + 1)"
      unfolding n'
      by (rule isocalendar_fromordinal) (use y d a in \<open>auto simp: C_def B_def\<close>)
    moreover have "(364 + (d - 1)) div 7 = 52" "(364 + (d - 1)) mod 7 = d - 1"
      using d by (auto intro: int_div_pos_eq int_mod_pos_eq)
    ultimately show ?thesis using a w by simp
  qed
  show ?thesis using c v i by blast
qed

theorem week_53_accepted_witness:
  "(1::int) \<le> 2005 \<and> (2005::int) \<le> 9998 \<and> (1::int) \<le> 1 \<and> (1::int) \<le> 7
   \<and> iso_weeks_in_year 2005 = 52
   \<and> priv_calculate_weekdate 2005 53 1 = Inr \<lparr>year = 2006, month = 1, day = 2\<rparr>
   \<and> isocalendar \<lparr>year = 2006, month = 1, day = 2\<rparr> = (2006, 1, 1)"
proof -
  have w: "iso_weeks_in_year 2005 = 52" by code_simp
  have c: "priv_calculate_weekdate 2005 53 1 = Inr \<lparr>year = 2006, month = 1, day = 2\<rparr>"
    by code_simp
  from week_53_accepted[of 2005 1] obtain dt where
    "priv_calculate_weekdate 2005 53 1 = Inr dt"
    "isocalendar dt = (if iso_weeks_in_year 2005 = 52 then (2005 + 1, 1, 1) else (2005, 53, 1))"
    by auto
  then show ?thesis using w c by simp
qed

text \<open>
  The claim does not hold for every ISO year: 9999 has 52 ISO weeks, and for no weekday
  does its week 53 yield a date.
\<close>

theorem week_53_of_9999_overflows:
  "iso_weeks_in_year 9999 = 52
   \<and> priv_calculate_weekdate 9999 53 1 = Inl OverflowError
   \<and> priv_calculate_weekdate 9999 53 2 = Inl OverflowError
   \<and> priv_calculate_weekdate 9999 53 3 = Inl OverflowError
   \<and> priv_calculate_weekdate 9999 53 4 = Inl OverflowError
   \<and> priv_calculate_weekdate 9999 53 5 = Inl OverflowError
   \<and> priv_calculate_weekdate 9999 53 6 = Inl OverflowError
   \<and> priv_calculate_weekdate 9999 53 7 = Inl OverflowError"
  by code_simp

end
